theory Spec2Isabelle
  imports
    Complex_Main
    "HOL-Library.Char_ord"
    "HOL-Library.List_Lexorder"
    "HOL-Library.Log_Nat"
    "HOL-Library.Multiset"
begin

section \<open>Values held in documents\<close>

text \<open>
  A document's \<^verbatim>\<open>Data\<close> is a Go \<^verbatim>\<open>map[string]interface{}\<close>. The dynamic values the
  engine meets are: \<^verbatim>\<open>nil\<close>, \<^verbatim>\<open>bool\<close>, \<^verbatim>\<open>int\<close> (literals of Go callers), \<^verbatim>\<open>int64\<close>
  (the CSV importer), \<^verbatim>\<open>float64\<close> (every JSON number), \<^verbatim>\<open>string\<close>,
  \<^verbatim>\<open>[]interface{}\<close>, \<^verbatim>\<open>map[string]interface{}\<close>, and values of other types such as
  \<^verbatim>\<open>time.Time\<close> (the aggregation projection). A value of another type is carried by
  the text that \<^verbatim>\<open>fmt\<close> prints for it: the engine only ever prints such a value or
  asks for its reflection kind, which is none of the kinds it tests for.

  A \<^verbatim>\<open>float64\<close> is a finite binary64 number (\<open>Fin r\<close>, with \<open>Fin 0\<close> the positive
  zero), the negative zero, an infinity, or a NaN.
\<close>

datatype float64 = Fin rat | NegZero | PosInf | NegInf | NaN

datatype "value" =
    VNil
  | VBool bool
  | VInt int
  | VInt64 int
  | VFloat float64
  | VStr string
  | VArr "value list"
  | VMap "(string \<times> value) list"
  | VOther string

text \<open>
  Two library routines of Go are parameters of the model: the shortest round-trip
  rendering of a \<^verbatim>\<open>float64\<close> that \<^verbatim>\<open>%v\<close> uses, and \<^verbatim>\<open>regexp\<close> (compile a pattern,
  then \<^verbatim>\<open>MatchString\<close>; \<open>None\<close> when the pattern does not compile). Every theorem
  below holds for every choice of them.
\<close>

record golib =
  fmtFloat :: "float64 \<Rightarrow> string"
  regexpMatch :: "string \<Rightarrow> string \<Rightarrow> bool option"

subsection \<open>\<^verbatim>\<open>fmt.Sprintf("%v", x)\<close>\<close>

fun formatNat :: "nat \<Rightarrow> string" where
  "formatNat n = (if n < 10 then [''0123456789'' ! n]
                  else formatNat (n div 10) @ [''0123456789'' ! (n mod 10)])"

definition formatInt :: "int \<Rightarrow> string" where
  "formatInt i = (if i < 0 then CHR ''-'' # formatNat (nat (- i)) else formatNat (nat i))"

fun joinWith :: "string \<Rightarrow> string list \<Rightarrow> string" where
  "joinWith sep [] = []"
| "joinWith sep [x] = x"
| "joinWith sep (x # y # ys) = x @ sep @ joinWith sep (y # ys)"

text \<open>
  \<^verbatim>\<open>%v\<close> prints \<^verbatim>\<open>nil\<close> as \<^verbatim>\<open><nil>\<close>, a string as it is, a slice as its elements
  between brackets, and a map as \<^verbatim>\<open>map[k:v ...]\<close> with the keys in increasing order.
\<close>

fun sprintv :: "golib \<Rightarrow> value \<Rightarrow> string" where
  "sprintv L VNil = ''<nil>''"
| "sprintv L (VBool b) = (if b then ''true'' else ''false'')"
| "sprintv L (VInt i) = formatInt i"
| "sprintv L (VInt64 i) = formatInt i"
| "sprintv L (VFloat f) = fmtFloat L f"
| "sprintv L (VStr s) = s"
| "sprintv L (VArr xs) = ''['' @ joinWith '' '' (map (sprintv L) xs) @ '']''"
| "sprintv L (VMap kvs) =
     ''map['' @ joinWith '' '' (map (\<lambda>(k, s). k @ '':'' @ s)
        (sort_key fst (map (\<lambda>kv. (fst kv, sprintv L (snd kv))) kvs))) @ '']''"
| "sprintv L (VOther s) = s"

section \<open>\<^verbatim>\<open>float64\<close> arithmetic and \<^verbatim>\<open>strconv.ParseFloat\<close>\<close>

subsection \<open>Rounding to binary64\<close>

definition pow2 :: "int \<Rightarrow> rat" where
  "pow2 k = (if 0 \<le> k then 2 ^ nat k else 1 / 2 ^ nat (- k))"

definition pow10 :: "int \<Rightarrow> rat" where
  "pow10 k = (if 0 \<le> k then 10 ^ nat k else 1 / 10 ^ nat (- k))"

text \<open>The number of binary digits of a positive integer.\<close>

function bitLength :: "int \<Rightarrow> int" where
  "bitLength n = (if n \<le> 0 then 0 else bitLength (n div 2) + 1)"
  by pat_completeness auto
termination
  by (relation "measure nat") auto

declare bitLength.simps [simp del]

text \<open>The floor of the binary logarithm of a positive rational.\<close>

definition ilog2 :: "rat \<Rightarrow> int" where
  "ilog2 x = (if 1 \<le> x then bitLength \<lfloor>x\<rfloor> - 1 else - bitLength (\<lceil>1 / x\<rceil> - 1))"

definition roundHalfEven :: "rat \<Rightarrow> int" where
  "roundHalfEven x = (let f = \<lfloor>x\<rfloor>; d = x - of_int f
                      in if d < 1 / 2 then f
                         else if 1 / 2 < d then f + 1
                         else if even f then f else f + 1)"

text \<open>
  The binary64 number nearest to a positive rational, ties to the even significand:
  53 significant bits, the exponent not below that of the subnormal numbers. The
  result may be \<open>0\<close> (underflow) or reach \<open>2 ^ 1024\<close> (overflow).
\<close>

definition roundMag64 :: "rat \<Rightarrow> rat" where
  "roundMag64 x = (let e = max (ilog2 x) (- 1022); q = pow2 (e - 52)
                   in of_int (roundHalfEven (x / q)) * q)"

definition roundFloat64 :: "rat \<Rightarrow> float64" where
  "roundFloat64 x =
     (if x = 0 then Fin 0
      else let r = roundMag64 \<bar>x\<bar> in
        if pow2 1024 \<le> r then (if 0 < x then PosInf else NegInf)
        else if r = 0 then (if 0 < x then Fin 0 else NegZero)
        else Fin (if 0 < x then r else - r))"

text \<open>Go's \<^verbatim>\<open>+\<close> on \<^verbatim>\<open>float64\<close>: the exact sum, rounded.\<close>

fun f64_add :: "float64 \<Rightarrow> float64 \<Rightarrow> float64" where
  "f64_add NaN y = NaN"
| "f64_add x NaN = NaN"
| "f64_add PosInf NegInf = NaN"
| "f64_add NegInf PosInf = NaN"
| "f64_add PosInf y = PosInf"
| "f64_add x PosInf = PosInf"
| "f64_add NegInf y = NegInf"
| "f64_add x NegInf = NegInf"
| "f64_add NegZero y = y"
| "f64_add x NegZero = x"
| "f64_add (Fin a) (Fin b) = roundFloat64 (a + b)"

text \<open>
  Go's \<^verbatim>\<open>/\<close> of a \<^verbatim>\<open>float64\<close> by \<^verbatim>\<open>float64(count)\<close> for a positive \<^verbatim>\<open>count\<close>.
\<close>

fun f64_div_count :: "float64 \<Rightarrow> int \<Rightarrow> float64" where
  "f64_div_count (Fin a) n =
     (case roundFloat64 (of_int n) of
        Fin b \<Rightarrow> (if a = 0 then Fin 0 else roundFloat64 (a / b))
      | _ \<Rightarrow> Fin 0)"
| "f64_div_count x n = x"

text \<open>
  Go's \<^verbatim>\<open><\<close> on \<^verbatim>\<open>float64\<close>: the order of the extended line, the two zeros equal,
  and false whenever an operand is a NaN.
\<close>

fun f64_rank :: "float64 \<Rightarrow> (int \<times> rat) option" where
  "f64_rank NaN = None"
| "f64_rank NegInf = Some (- 1, 0)"
| "f64_rank PosInf = Some (1, 0)"
| "f64_rank NegZero = Some (0, 0)"
| "f64_rank (Fin r) = Some (0, r)"

definition f64_less :: "float64 \<Rightarrow> float64 \<Rightarrow> bool" where
  "f64_less x y = (case (f64_rank x, f64_rank y) of
      (Some (i, a), Some (j, b)) \<Rightarrow> i < j \<or> (i = j \<and> a < b)
    | _ \<Rightarrow> False)"

subsection \<open>\<^verbatim>\<open>strconv.ParseFloat(s, 64)\<close>\<close>

text \<open>
  \<^verbatim>\<open>ParseFloat\<close> accepts Go's decimal and hexadecimal floating-point literals with an
  optional sign, underscores between digits, and the words \<^verbatim>\<open>inf\<close>, \<^verbatim>\<open>infinity\<close>
  and \<^verbatim>\<open>nan\<close> in any case. It returns the binary64 number nearest to the literal,
  and an error for a malformed literal or one that rounds beyond the largest finite
  number. The result here is \<open>None\<close> for an error.
\<close>

definition digitVal :: "char \<Rightarrow> int option" where
  "digitVal c = map_of [(CHR ''0'', 0), (CHR ''1'', 1), (CHR ''2'', 2), (CHR ''3'', 3),
     (CHR ''4'', 4), (CHR ''5'', 5), (CHR ''6'', 6), (CHR ''7'', 7), (CHR ''8'', 8),
     (CHR ''9'', 9)] c"

definition hexLetterVal :: "char \<Rightarrow> int option" where
  "hexLetterVal c = map_of [(CHR ''a'', 10), (CHR ''b'', 11), (CHR ''c'', 12), (CHR ''d'', 13),
     (CHR ''e'', 14), (CHR ''f'', 15), (CHR ''A'', 10), (CHR ''B'', 11), (CHR ''C'', 12),
     (CHR ''D'', 13), (CHR ''E'', 14), (CHR ''F'', 15)] c"

definition asciiLower :: "char \<Rightarrow> char" where
  "asciiLower c =
     (case map_of (zip ''ABCDEFGHIJKLMNOPQRSTUVWXYZ'' ''abcdefghijklmnopqrstuvwxyz'') c of
        Some l \<Rightarrow> l
      | None \<Rightarrow> c)"

fun commonPrefixLenIgnoreCase :: "string \<Rightarrow> string \<Rightarrow> nat" where
  "commonPrefixLenIgnoreCase (c # s) (p # prefix) =
     (if asciiLower c \<noteq> p then 0 else Suc (commonPrefixLenIgnoreCase s prefix))"
| "commonPrefixLenIgnoreCase s prefix = 0"

definition infinityPrefix :: "string \<Rightarrow> nat option" where
  "infinityPrefix s = (let n = commonPrefixLenIgnoreCase s ''infinity'';
                           n' = (if 3 < n \<and> n < 8 then 3 else n)
                       in if n' = 3 \<or> n' = 8 then Some n' else None)"

text \<open>\<^verbatim>\<open>special\<close>: the value and the number of bytes it took.\<close>

definition special :: "string \<Rightarrow> (float64 \<times> nat) option" where
  "special s =
     (case s of
        [] \<Rightarrow> None
      | c # cs \<Rightarrow>
          if c = CHR ''+'' \<or> c = CHR ''-'' then
            (case infinityPrefix cs of
               Some n \<Rightarrow> Some (if c = CHR ''-'' then NegInf else PosInf, 1 + n)
             | None \<Rightarrow> None)
          else if c = CHR ''i'' \<or> c = CHR ''I'' then
            (case infinityPrefix s of
               Some n \<Rightarrow> Some (PosInf, n)
             | None \<Rightarrow> None)
          else if c = CHR ''n'' \<or> c = CHR ''N'' then
            (if commonPrefixLenIgnoreCase s ''nan'' = 3 then Some (NaN, 3) else None)
          else None)"

text \<open>
  The digit loop of \<^verbatim>\<open>readFloat\<close>. Its state: the digits read so far as a number,
  how many of them came after the point, \<^verbatim>\<open>sawdot\<close>, \<^verbatim>\<open>sawdigits\<close>. It returns
  them with the text left over.
\<close>

fun scanMantissa :: "bool \<Rightarrow> string \<Rightarrow> int \<Rightarrow> int \<Rightarrow> bool \<Rightarrow> bool
    \<Rightarrow> (int \<times> int \<times> bool \<times> string)" where
  "scanMantissa hex [] m fd sawdot sawdigits = (m, fd, sawdigits, [])"
| "scanMantissa hex (c # cs) m fd sawdot sawdigits =
     (if c = CHR ''_'' then scanMantissa hex cs m fd sawdot sawdigits
      else if c = CHR ''.'' then
        (if sawdot then (m, fd, sawdigits, c # cs)
         else scanMantissa hex cs m fd True sawdigits)
      else case digitVal c of
        Some d \<Rightarrow> scanMantissa hex cs (m * (if hex then 16 else 10) + d)
                    (if sawdot then fd + 1 else fd) sawdot True
      | None \<Rightarrow>
          (case (if hex then hexLetterVal c else None) of
             Some d \<Rightarrow> scanMantissa hex cs (m * 16 + d) (if sawdot then fd + 1 else fd) sawdot True
           | None \<Rightarrow> (m, fd, sawdigits, c # cs)))"

text \<open>The exponent digits; the exponent stops growing at 10000, as in the source.\<close>

fun scanExpDigits :: "string \<Rightarrow> int \<Rightarrow> (int \<times> string)" where
  "scanExpDigits [] e = (e, [])"
| "scanExpDigits (c # cs) e =
     (if c = CHR ''_'' then scanExpDigits cs e
      else case digitVal c of
        Some d \<Rightarrow> scanExpDigits cs (if e < 10000 then e * 10 + d else e)
      | None \<Rightarrow> (e, c # cs))"

text \<open>
  The exponent part: the exponent and the text left over, or \<open>None\<close> for a syntax
  error. A hexadecimal mantissa must have an exponent.
\<close>

definition scanExponent :: "bool \<Rightarrow> string \<Rightarrow> (int \<times> string) option" where
  "scanExponent hex s =
     (case s of
        [] \<Rightarrow> (if hex then None else Some (0, []))
      | c # cs \<Rightarrow>
          if (if hex then c = CHR ''p'' \<or> c = CHR ''P'' else c = CHR ''e'' \<or> c = CHR ''E'') then
            (case cs of
               [] \<Rightarrow> None
             | s1 # rest1 \<Rightarrow>
                 let (esign, ds) = (if s1 = CHR ''+'' then (1, rest1)
                                    else if s1 = CHR ''-'' then (- 1, rest1)
                                    else (1::int, cs))
                 in (case ds of
                       [] \<Rightarrow> None
                     | d # _ \<Rightarrow>
                         if digitVal d = None then None
                         else let (e, rest) = scanExpDigits ds 0
                              in Some (esign * e, rest)))
          else if hex then None
          else Some (0, c # cs))"

text \<open>
  \<^verbatim>\<open>underscoreOK\<close>: an underscore must stand between two digits, or between a base
  prefix and a digit.
\<close>

datatype saw = SawStart | SawDigit | SawUnderscore | SawOther

fun underscoreLoop :: "bool \<Rightarrow> saw \<Rightarrow> string \<Rightarrow> bool" where
  "underscoreLoop hex saw [] = (saw \<noteq> SawUnderscore)"
| "underscoreLoop hex saw (c # cs) =
     (if digitVal c \<noteq> None \<or> (hex \<and> hexLetterVal c \<noteq> None) then underscoreLoop hex SawDigit cs
      else if c = CHR ''_'' then
        (if saw \<noteq> SawDigit then False else underscoreLoop hex SawUnderscore cs)
      else if saw = SawUnderscore then False
      else underscoreLoop hex SawOther cs)"

definition underscoreOK :: "string \<Rightarrow> bool" where
  "underscoreOK s =
     (let s1 = (case s of c # cs \<Rightarrow> if c = CHR ''-'' \<or> c = CHR ''+'' then cs else s | [] \<Rightarrow> s)
      in case s1 of
           c0 # c1 # rest \<Rightarrow>
             if c0 = CHR ''0'' \<and> c1 \<in> set ''bBoOxX''
             then underscoreLoop (c1 = CHR ''x'' \<or> c1 = CHR ''X'') SawDigit rest
             else underscoreLoop False SawStart s1
         | _ \<Rightarrow> underscoreLoop False SawStart s1)"

text \<open>
  \<^verbatim>\<open>readFloat\<close>, for a literal that must be read to its end (\<^verbatim>\<open>ParseFloat\<close> rejects
  trailing text): the sign, the digits as a number, the exponent of the base (ten, or
  two for a hexadecimal literal) that scales them, and whether the literal is
  hexadecimal.
\<close>

definition readFloat :: "string \<Rightarrow> (bool \<times> int \<times> int \<times> bool) option" where
  "readFloat s =
     (case s of
        [] \<Rightarrow> None
      | c # cs \<Rightarrow>
          let neg = (c = CHR ''-'');
              s1 = (if c = CHR ''+'' \<or> c = CHR ''-'' then cs else s);
              hex = (case s1 of
                       c0 # c1 # _ # _ \<Rightarrow> c0 = CHR ''0'' \<and> (c1 = CHR ''x'' \<or> c1 = CHR ''X'')
                     | _ \<Rightarrow> False);
              s2 = (if hex then drop 2 s1 else s1);
              (m, fd, sawdigits, rest) = scanMantissa hex s2 0 0 False False
          in if \<not> sawdigits then None
             else case scanExponent hex rest of
                    None \<Rightarrow> None
                  | Some (e, rest') \<Rightarrow>
                      if rest' \<noteq> [] \<or> \<not> underscoreOK s then None
                      else Some (neg, m, (if hex then e - 4 * fd else e - fd), hex))"

definition ParseFloat :: "string \<Rightarrow> float64 option" where
  "ParseFloat s =
     (case special s of
        Some (f, n) \<Rightarrow> (if n = length s then Some f else None)
      | None \<Rightarrow>
         (case readFloat s of
            None \<Rightarrow> None
          | Some (neg, m, e, hex) \<Rightarrow>
              if m = 0 then Some (if neg then NegZero else Fin 0)
              else let r = roundMag64 (of_int m * (if hex then pow2 e else pow10 e))
                   in if pow2 1024 \<le> r then None
                      else if r = 0 then Some (if neg then NegZero else Fin 0)
                      else Some (Fin (if neg then - r else r))))"

section \<open>Documents, indexes, collections (storage.go)\<close>

text \<open>
  Timestamps are readings of the clock, passed to the operations that call
  \<^verbatim>\<open>time.Now()\<close>. Go maps are partial functions; the maps of a collection are always
  allocated (\<^verbatim>\<open>CreateCollection\<close> and \<^verbatim>\<open>CreateIndex\<close> make them, and a snapshot written
  by \<^verbatim>\<open>saveDatabase\<close> encodes them as objects). The field \<^verbatim>\<open>Field\<close> of an index is
  \<open>IndexField\<close> here.

  \<^verbatim>\<open>Insert\<close> and \<^verbatim>\<open>Update\<close> store the map that they are given, not a copy of it.
  The functions of this section give the collection after one call, from the
  collection before the call and the content that the map has at the call. What a
  later write of the caller to that map does to the stored document is the subject of
  the section on sequences of calls.
\<close>

type_synonym Time = int

record Document =
  ID :: string
  Data :: "string \<rightharpoonup> value"
  CreatedAt :: Time
  UpdatedAt :: Time

record Index =
  IndexField :: string
  Values :: "string \<rightharpoonup> string"

record Collection =
  Name :: string
  Documents :: "string \<rightharpoonup> Document"
  Indexes :: "string \<rightharpoonup> Index"

datatype error =
    AlreadyExists string
  | NotFound string
  | UnknownAggregation string

text \<open>The collection that \<^verbatim>\<open>CreateCollection\<close> allocates.\<close>

definition NewCollection :: "string \<Rightarrow> Collection" where
  "NewCollection name = \<lparr>Name = name, Documents = Map.empty, Indexes = Map.empty\<rparr>"

text \<open>
  \<^verbatim>\<open>updateIndexes\<close> and \<^verbatim>\<open>removeFromIndexes\<close> range over \<^verbatim>\<open>c.Indexes\<close>; each round
  touches the index of its own field only, so the loop is the same change at every
  field. \<^verbatim>\<open>removeFromIndexes\<close> deletes the key whatever document id is stored under it.
\<close>

definition updateIndexes :: "golib \<Rightarrow> Collection \<Rightarrow> Document \<Rightarrow> Collection" where
  "updateIndexes L c doc = c\<lparr>Indexes := (\<lambda>field.
     case Indexes c field of
       None \<Rightarrow> None
     | Some index \<Rightarrow>
        (case Data doc field of
           None \<Rightarrow> Some index
         | Some v \<Rightarrow> Some (index\<lparr>Values := (Values index)(sprintv L v \<mapsto> ID doc)\<rparr>)))\<rparr>"

definition removeFromIndexes :: "golib \<Rightarrow> Collection \<Rightarrow> Document \<Rightarrow> Collection" where
  "removeFromIndexes L c doc = c\<lparr>Indexes := (\<lambda>field.
     case Indexes c field of
       None \<Rightarrow> None
     | Some index \<Rightarrow>
        (case Data doc field of
           None \<Rightarrow> Some index
         | Some v \<Rightarrow> Some (index\<lparr>Values := (Values index)(sprintv L v := None)\<rparr>)))\<rparr>"

text \<open>
  Each operation returns Go's \<^verbatim>\<open>error\<close> result (\<open>None\<close> for \<^verbatim>\<open>nil\<close>) and the
  collection as the call leaves it.
\<close>

definition Insert ::
  "golib \<Rightarrow> Collection \<Rightarrow> string \<Rightarrow> (string \<rightharpoonup> value) \<Rightarrow> Time \<Rightarrow> Time
     \<Rightarrow> error option \<times> Collection" where
  "Insert L c did data now1 now2 =
     (if Documents c did \<noteq> None then (Some (AlreadyExists did), c)
      else
        let doc = \<lparr>ID = did, Data = data, CreatedAt = now1, UpdatedAt = now2\<rparr>;
            c1 = c\<lparr>Documents := (Documents c)(did \<mapsto> doc)\<rparr>
        in (None, updateIndexes L c1 doc))"

definition Update ::
  "golib \<Rightarrow> Collection \<Rightarrow> string \<Rightarrow> (string \<rightharpoonup> value) \<Rightarrow> Time
     \<Rightarrow> error option \<times> Collection" where
  "Update L c did data now =
     (case Documents c did of
        None \<Rightarrow> (Some (NotFound did), c)
      | Some doc \<Rightarrow>
         let c1 = removeFromIndexes L c doc;
             doc' = doc\<lparr>Data := data, UpdatedAt := now\<rparr>;
             c2 = c1\<lparr>Documents := (Documents c1)(did \<mapsto> doc')\<rparr>
         in (None, updateIndexes L c2 doc'))"

definition Delete :: "golib \<Rightarrow> Collection \<Rightarrow> string \<Rightarrow> error option \<times> Collection" where
  "Delete L c did =
     (case Documents c did of
        None \<Rightarrow> (Some (NotFound did), c)
      | Some doc \<Rightarrow>
         let c1 = removeFromIndexes L c doc
         in (None, c1\<lparr>Documents := (Documents c1)(did := None)\<rparr>))"

text \<open>
  A \<^verbatim>\<open>range\<close> over a Go map visits the keys in an order the runtime picks. Where the
  result depends on it, the order is an argument: a list that enumerates the keys.
\<close>

definition iterates :: "'k list \<Rightarrow> ('k \<rightharpoonup> 'v) \<Rightarrow> bool" where
  "iterates order m = (distinct order \<and> set order = dom m)"

definition rangeDocuments :: "Collection \<Rightarrow> string list \<Rightarrow> Document list" where
  "rangeDocuments c order = List.map_filter (Documents c) order"

definition indexDocument :: "golib \<Rightarrow> string \<Rightarrow> Document \<Rightarrow> Index \<Rightarrow> Index" where
  "indexDocument L field doc index =
     (case Data doc field of
        None \<Rightarrow> index
      | Some v \<Rightarrow> index\<lparr>Values := (Values index)(sprintv L v \<mapsto> ID doc)\<rparr>)"

definition CreateIndex :: "golib \<Rightarrow> Collection \<Rightarrow> string \<Rightarrow> string list \<Rightarrow> Collection" where
  "CreateIndex L c field order =
     (let index = fold (indexDocument L field) (rangeDocuments c order)
                    \<lparr>IndexField = field, Values = Map.empty\<rparr>
      in c\<lparr>Indexes := (Indexes c)(field \<mapsto> index)\<rparr>)"

text \<open>
  \<^verbatim>\<open>Find\<close> always returns a \<^verbatim>\<open>nil\<close> error; the model returns the documents. The
  else-branch of the source, the scan of all documents, is \<open>fullScan\<close>.
\<close>

definition fullScan :: "golib \<Rightarrow> Collection \<Rightarrow> string \<Rightarrow> value \<Rightarrow> string list \<Rightarrow> Document list" where
  "fullScan L c field v order =
     filter (\<lambda>doc. case Data doc field of
                      None \<Rightarrow> False
                    | Some docValue \<Rightarrow> sprintv L docValue = sprintv L v)
       (rangeDocuments c order)"

definition Find :: "golib \<Rightarrow> Collection \<Rightarrow> string \<Rightarrow> value \<Rightarrow> string list \<Rightarrow> Document list" where
  "Find L c field v order =
     (case Indexes c field of
        Some index \<Rightarrow>
          (case Values index (sprintv L v) of
             Some docID \<Rightarrow>
               (case Documents c docID of
                  Some doc \<Rightarrow> [doc]
                | None \<Rightarrow> [])
           | None \<Rightarrow> [])
      | None \<Rightarrow> fullScan L c field v order)"

definition GetAll :: "Collection \<Rightarrow> string list \<Rightarrow> Document list" where
  "GetAll c order = rangeDocuments c order"

text \<open>
  A fixed choice of the two library parameters for the concrete runs below, which hold
  no \<^verbatim>\<open>float64\<close> value and no regular expression.
\<close>

definition lib0 :: golib where
  "lib0 = \<lparr>fmtFloat = (\<lambda>f. ''float''), regexpMatch = (\<lambda>p s. None)\<rparr>"

section \<open>The query builder\<close>

subsection \<open>\<^verbatim>\<open>compareValues\<close>, \<^verbatim>\<open>getValueType\<close>, \<^verbatim>\<open>getValueSize\<close>\<close>

text \<open>Go compares strings byte by byte; that is the order of \<open>string\<close> here.\<close>

definition compareValues :: "golib \<Rightarrow> value \<Rightarrow> value \<Rightarrow> int" where
  "compareValues L a b =
     (let aStr = sprintv L a;
          bStr = sprintv L b;
          numeric =
            (case ParseFloat aStr of
               None \<Rightarrow> None
             | Some aNum \<Rightarrow>
                (case ParseFloat bStr of
                   None \<Rightarrow> None
                 | Some bNum \<Rightarrow>
                    Some (if f64_less aNum bNum then - 1
                          else if f64_less bNum aNum then 1
                          else 0)))
      in case numeric of
           Some r \<Rightarrow> r
         | None \<Rightarrow> (if aStr < bStr then - 1 else if bStr < aStr then 1 else 0))"

text \<open>
  The comparison as the specification words it: the numeric comparison when both
  stringifications parse as numbers, the lexicographic comparison of the
  stringifications otherwise.
\<close>

definition numericCompare :: "float64 \<Rightarrow> float64 \<Rightarrow> int" where
  "numericCompare x y = (if f64_less x y then - 1 else if f64_less y x then 1 else 0)"

fun lexCompare :: "string \<Rightarrow> string \<Rightarrow> int" where
  "lexCompare [] [] = 0"
| "lexCompare [] (y # ys) = - 1"
| "lexCompare (x # xs) [] = 1"
| "lexCompare (x # xs) (y # ys) =
     (if (of_char x :: nat) < of_char y then - 1
      else if (of_char y :: nat) < of_char x then 1
      else lexCompare xs ys)"

definition Compare :: "golib \<Rightarrow> value \<Rightarrow> value \<Rightarrow> int" where
  "Compare L a b =
     (case (ParseFloat (sprintv L a), ParseFloat (sprintv L b)) of
        (Some x, Some y) \<Rightarrow> numericCompare x y
      | _ \<Rightarrow> lexCompare (sprintv L a) (sprintv L b))"

fun getValueType :: "value \<Rightarrow> string" where
  "getValueType VNil = ''null''"
| "getValueType (VStr s) = ''string''"
| "getValueType (VInt i) = ''int''"
| "getValueType (VInt64 i) = ''int''"
| "getValueType (VFloat f) = ''double''"
| "getValueType (VBool b) = ''bool''"
| "getValueType (VArr xs) = ''array''"
| "getValueType (VMap kvs) = ''object''"
| "getValueType (VOther s) = ''unknown''"

fun getValueSize :: "value \<Rightarrow> int" where
  "getValueSize (VStr s) = int (length s)"
| "getValueSize (VArr xs) = int (length xs)"
| "getValueSize (VMap kvs) = int (length kvs)"
| "getValueSize v = 0"

subsection \<open>Filters\<close>

text \<open>
  The fields \<^verbatim>\<open>Field\<close> and \<^verbatim>\<open>Value\<close> of a filter are \<open>FilterField\<close> and
  \<open>FilterValue\<close>.
\<close>

record Filter =
  FilterField :: string
  Operator :: string
  FilterValue :: "value"

definition OpEqual :: string where "OpEqual = ''$eq''"
definition OpNotEqual :: string where "OpNotEqual = ''$ne''"
definition OpGreaterThan :: string where "OpGreaterThan = ''$gt''"
definition OpGreaterThanOrEqual :: string where "OpGreaterThanOrEqual = ''$gte''"
definition OpLessThan :: string where "OpLessThan = ''$lt''"
definition OpLessThanOrEqual :: string where "OpLessThanOrEqual = ''$lte''"
definition OpIn :: string where "OpIn = ''$in''"
definition OpNotIn :: string where "OpNotIn = ''$nin''"
definition OpRegex :: string where "OpRegex = ''$regex''"
definition OpExists :: string where "OpExists = ''$exists''"
definition OpType :: string where "OpType = ''$type''"
definition OpSize :: string where "OpSize = ''$size''"

record QueryBuilder =
  collection :: Collection
  filters :: "Filter list"
  sortBy :: string
  sortOrder :: int
  limit :: int
  skip :: int

definition NewQuery :: "Collection \<Rightarrow> QueryBuilder" where
  "NewQuery c = \<lparr>collection = c, filters = [], sortBy = [], sortOrder = 1, limit = 0, skip = 0\<rparr>"


definition Sort :: "QueryBuilder \<Rightarrow> string \<Rightarrow> bool \<Rightarrow> QueryBuilder" where
  "Sort qb field ascending = qb\<lparr>sortBy := field, sortOrder := (if ascending then 1 else - 1)\<rparr>"



definition matchesFilter :: "golib \<Rightarrow> Document \<Rightarrow> Filter \<Rightarrow> bool" where
  "matchesFilter L doc flt =
     (let exists = (Data doc (FilterField flt) \<noteq> None);
          fieldValue = (case Data doc (FilterField flt) of Some v \<Rightarrow> v | None \<Rightarrow> VNil);
          cmp = compareValues L fieldValue;
          op = Operator flt
      in if op = OpEqual then exists \<and> cmp (FilterValue flt) = 0
         else if op = OpNotEqual then \<not> exists \<or> cmp (FilterValue flt) \<noteq> 0
         else if op = OpGreaterThan then exists \<and> cmp (FilterValue flt) > 0
         else if op = OpGreaterThanOrEqual then exists \<and> cmp (FilterValue flt) \<ge> 0
         else if op = OpLessThan then exists \<and> cmp (FilterValue flt) < 0
         else if op = OpLessThanOrEqual then exists \<and> cmp (FilterValue flt) \<le> 0
         else if op = OpIn then
           (if \<not> exists then False
            else case FilterValue flt of
                   VArr vals \<Rightarrow> list_ex (\<lambda>v. cmp v = 0) vals
                 | _ \<Rightarrow> False)
         else if op = OpNotIn then
           (if \<not> exists then True
            else case FilterValue flt of
                   VArr vals \<Rightarrow> \<not> list_ex (\<lambda>v. cmp v = 0) vals
                 | _ \<Rightarrow> True)
         else if op = OpRegex then
           (if \<not> exists then False
            else case FilterValue flt of
                   VStr pattern \<Rightarrow>
                     (case regexpMatch L pattern (sprintv L fieldValue) of
                        None \<Rightarrow> False
                      | Some m \<Rightarrow> m)
                 | _ \<Rightarrow> False)
         else if op = OpExists then
           (case FilterValue flt of
              VBool expected \<Rightarrow> exists = expected
            | _ \<Rightarrow> False)
         else if op = OpType then
           (if \<not> exists then False
            else case FilterValue flt of
                   VStr expectedType \<Rightarrow> getValueType fieldValue = expectedType
                 | _ \<Rightarrow> False)
         else if op = OpSize then
           (if \<not> exists then False
            else case FilterValue flt of
                   VInt expectedSize \<Rightarrow> getValueSize fieldValue = expectedSize
                 | _ \<Rightarrow> False)
         else False)"

definition matchesFilters :: "golib \<Rightarrow> QueryBuilder \<Rightarrow> Document \<Rightarrow> bool" where
  "matchesFilters L qb doc = list_all (matchesFilter L doc) (filters qb)"

subsection \<open>\<^verbatim>\<open>sortDocuments\<close>\<close>

text \<open>The decision of one round of the inner loop.\<close>

definition shouldSwap :: "golib \<Rightarrow> QueryBuilder \<Rightarrow> Document \<Rightarrow> Document \<Rightarrow> bool" where
  "shouldSwap L qb d1 d2 =
     (case (Data d1 (sortBy qb), Data d2 (sortBy qb)) of
        (None, Some val2) \<Rightarrow> sortOrder qb = 1
      | (Some val1, None) \<Rightarrow> sortOrder qb = - 1
      | (Some val1, Some val2) \<Rightarrow>
          (let cmp = compareValues L val1 val2
           in (sortOrder qb = 1 \<and> cmp > 0) \<or> (sortOrder qb = - 1 \<and> cmp < 0))
      | (None, None) \<Rightarrow> False)"

text \<open>
  The bubble sort, an outer and an inner loop. \<open>n\<close> is \<^verbatim>\<open>len(docs)\<close>, read once at the
  start; the inner loop runs while \<^verbatim>\<open>j < n-i-1\<close>, the outer one while \<^verbatim>\<open>i < n-1\<close>.
\<close>

function sortDocuments_inner ::
  "golib \<Rightarrow> QueryBuilder \<Rightarrow> nat \<Rightarrow> nat \<Rightarrow> nat \<Rightarrow> Document list \<Rightarrow> Document list" where
  "sortDocuments_inner L qb n i j docs =
     (if j + i + 1 < n then
        sortDocuments_inner L qb n i (j + 1)
          (if shouldSwap L qb (docs ! j) (docs ! (j + 1))
           then docs[j := docs ! (j + 1), j + 1 := docs ! j]
           else docs)
      else docs)"
  by pat_completeness auto
termination
  by (relation "measure (\<lambda>(L, qb, n, i, j, docs). n - j)") auto

declare sortDocuments_inner.simps [simp del]

function sortDocuments_outer ::
  "golib \<Rightarrow> QueryBuilder \<Rightarrow> nat \<Rightarrow> nat \<Rightarrow> Document list \<Rightarrow> Document list" where
  "sortDocuments_outer L qb n i docs =
     (if i + 1 < n
      then sortDocuments_outer L qb n (i + 1) (sortDocuments_inner L qb n i 0 docs)
      else docs)"
  by pat_completeness auto
termination
  by (relation "measure (\<lambda>(L, qb, n, i, docs). n - i)") auto

declare sortDocuments_outer.simps [simp del]

definition sortDocuments :: "golib \<Rightarrow> QueryBuilder \<Rightarrow> Document list \<Rightarrow> Document list" where
  "sortDocuments L qb docs =
     (if sortBy qb = [] then docs else sortDocuments_outer L qb (length docs) 0 docs)"

subsection \<open>\<^verbatim>\<open>Execute\<close> and \<^verbatim>\<open>Count\<close>\<close>


definition Count :: "golib \<Rightarrow> QueryBuilder \<Rightarrow> string list \<Rightarrow> int" where
  "Count L qb order =
     int (length (filter (matchesFilters L qb) (rangeDocuments (collection qb) order)))"

subsection \<open>Equal sort keys\<close>

text \<open>
  Two documents have equal sort keys when both lack the sort field, or both have it
  and the two values compare equal.
\<close>

definition sortKeysEqual :: "golib \<Rightarrow> QueryBuilder \<Rightarrow> Document \<Rightarrow> Document \<Rightarrow> bool" where
  "sortKeysEqual L qb d1 d2 =
     (case (Data d1 (sortBy qb), Data d2 (sortBy qb)) of
        (None, None) \<Rightarrow> True
      | (Some v1, Some v2) \<Rightarrow> compareValues L v1 v2 = 0
      | _ \<Rightarrow> False)"

subsection \<open>The specification's words for matching and paging\<close>










section \<open>Aggregation\<close>

text \<open>
  An item of the pipeline is a \<^verbatim>\<open>map[string]interface{}\<close>. The field \<^verbatim>\<open>ID\<close> of a
  group stage is \<open>GroupID\<close>, the field \<^verbatim>\<open>Field\<close> of an aggregate function is
  \<open>AggField\<close>. \<^verbatim>\<open>Fields\<close> is the Go map as the list of its entries, in the order in
  which the \<^verbatim>\<open>range\<close> over it visits them.
\<close>

type_synonym item = "string \<rightharpoonup> value"

record AggregateFunc =
  Operation :: string
  AggField :: string

record GroupStage =
  GroupID :: "value"
  Fields :: "(string \<times> AggregateFunc) list"

definition getGroupKey :: "golib \<Rightarrow> GroupStage \<Rightarrow> item \<Rightarrow> string" where
  "getGroupKey L s it =
     (case GroupID s of
        VStr idStr \<Rightarrow> (case it idStr of Some v \<Rightarrow> sprintv L v | None \<Rightarrow> ''null'')
      | _ \<Rightarrow> ''null'')"

text \<open>The numeric reading of a field of an item, when it is present and parses.\<close>

definition numericField :: "golib \<Rightarrow> string \<Rightarrow> item \<Rightarrow> float64 option" where
  "numericField L field it =
     (case it field of
        None \<Rightarrow> None
      | Some v \<Rightarrow> ParseFloat (sprintv L v))"

definition sumLoop :: "golib \<Rightarrow> string \<Rightarrow> item list \<Rightarrow> float64" where
  "sumLoop L field data =
     foldl (\<lambda>sum it. case numericField L field it of
                        Some num \<Rightarrow> f64_add sum num
                      | None \<Rightarrow> sum)
       (Fin 0) data"

definition countLoop :: "golib \<Rightarrow> string \<Rightarrow> item list \<Rightarrow> int" where
  "countLoop L field data =
     foldl (\<lambda>count it. case numericField L field it of
                          Some num \<Rightarrow> count + 1
                        | None \<Rightarrow> count)
       0 data"

text \<open>The loop of \<^verbatim>\<open>max\<close> and that of \<^verbatim>\<open>min\<close>: \<open>None\<close> while \<^verbatim>\<open>first\<close> is true.\<close>

definition extremeLoop ::
  "(float64 \<Rightarrow> float64 \<Rightarrow> bool) \<Rightarrow> golib \<Rightarrow> string \<Rightarrow> item list \<Rightarrow> float64 option" where
  "extremeLoop better L field data =
     foldl (\<lambda>best it. case numericField L field it of
                         Some num \<Rightarrow>
                           (case best of
                              None \<Rightarrow> Some num
                            | Some b \<Rightarrow> if better num b then Some num else Some b)
                       | None \<Rightarrow> best)
       None data"

definition calculateAggregation ::
  "golib \<Rightarrow> item list \<Rightarrow> AggregateFunc \<Rightarrow> error + value" where
  "calculateAggregation L data aggFunc =
     (if Operation aggFunc = ''count'' then Inr (VInt (int (length data)))
      else if Operation aggFunc = ''sum'' then Inr (VFloat (sumLoop L (AggField aggFunc) data))
      else if Operation aggFunc = ''avg'' then
        (let sum = sumLoop L (AggField aggFunc) data;
             count = countLoop L (AggField aggFunc) data
         in if count > 0 then Inr (VFloat (f64_div_count sum count)) else Inr (VInt 0))
      else if Operation aggFunc = ''max'' then
        (case extremeLoop (\<lambda>num best. f64_less best num) L (AggField aggFunc) data of
           None \<Rightarrow> Inr VNil
         | Some m \<Rightarrow> Inr (VFloat m))
      else if Operation aggFunc = ''min'' then
        (case extremeLoop (\<lambda>num best. f64_less num best) L (AggField aggFunc) data of
           None \<Rightarrow> Inr VNil
         | Some m \<Rightarrow> Inr (VFloat m))
      else Inl (UnknownAggregation (Operation aggFunc)))"

text \<open>The first loop of \<^verbatim>\<open>Process\<close>: every item is appended to the group of its key.\<close>

definition groupItems :: "golib \<Rightarrow> GroupStage \<Rightarrow> item list \<Rightarrow> (string \<rightharpoonup> item list)" where
  "groupItems L s data =
     foldl (\<lambda>groups it.
              groups(getGroupKey L s it \<mapsto>
                (case groups (getGroupKey L s it) of None \<Rightarrow> [] | Some g \<Rightarrow> g) @ [it]))
       Map.empty data"

text \<open>The result of one group: \<^verbatim>\<open>_id\<close>, then every aggregated field.\<close>

fun groupFields ::
  "golib \<Rightarrow> item list \<Rightarrow> (string \<times> AggregateFunc) list \<Rightarrow> item \<Rightarrow> error + item" where
  "groupFields L groupData [] groupResult = Inr groupResult"
| "groupFields L groupData ((fieldName, aggFunc) # rest) groupResult =
     (case calculateAggregation L groupData aggFunc of
        Inl err \<Rightarrow> Inl err
      | Inr v \<Rightarrow> groupFields L groupData rest (groupResult(fieldName \<mapsto> v)))"

text \<open>
  The second loop of \<^verbatim>\<open>Process\<close> ranges over the groups; \<open>korder\<close> is the order in
  which it visits their keys.
\<close>

fun processGroups ::
  "golib \<Rightarrow> GroupStage \<Rightarrow> (string \<rightharpoonup> item list) \<Rightarrow> string list \<Rightarrow> error + item list" where
  "processGroups L s groups [] = Inr []"
| "processGroups L s groups (groupKey # rest) =
     (case groups groupKey of
        None \<Rightarrow> processGroups L s groups rest
      | Some groupData \<Rightarrow>
          (case groupFields L groupData (Fields s) [''_id'' \<mapsto> VStr groupKey] of
             Inl err \<Rightarrow> Inl err
           | Inr groupResult \<Rightarrow>
               (case processGroups L s groups rest of
                  Inl err \<Rightarrow> Inl err
                | Inr result \<Rightarrow> Inr (groupResult # result))))"

definition Process :: "golib \<Rightarrow> GroupStage \<Rightarrow> item list \<Rightarrow> string list \<Rightarrow> error + item list" where
  "Process L s data korder = processGroups L s (groupItems L s data) korder"

section \<open>Import with overwrite\<close>

text \<open>
  \<^verbatim>\<open>ImportData\<close> looks the collection up, clears it when \<^verbatim>\<open>OverwriteData\<close> is set, and
  hands it to the reader of the chosen format, which calls \<^verbatim>\<open>Insert\<close> for every row of
  the file. \<open>ImportData_clear\<close> is the step between the lookup and the reader: the
  collection with which the reader starts. The field \<^verbatim>\<open>Collection\<close> of the options is
  \<open>CollectionName\<close>.
\<close>

record ImportOptions =
  Format :: string
  CollectionName :: string
  FilePath :: string
  CreateCollection :: bool
  OverwriteData :: bool
  IDField :: string

definition ImportData_clear :: "ImportOptions \<Rightarrow> Collection \<Rightarrow> Collection" where
  "ImportData_clear options c =
     (if OverwriteData options then c\<lparr>Documents := Map.empty\<rparr> else c)"

section \<open>The index invariant\<close>

text \<open>
  The index invariant of the specification: every entry of every index refers to a
  live document whose value of the indexed field stringifies to the entry's key.
\<close>

definition index_consistent :: "golib \<Rightarrow> Collection \<Rightarrow> bool" where
  "index_consistent L c =
     (\<forall>f index k did. Indexes c f = Some index \<and> Values index k = Some did \<longrightarrow>
        (\<exists>doc v. Documents c did = Some doc \<and> Data doc f = Some v \<and> sprintv L v = k))"

text \<open>Every document is stored under its own id.\<close>

definition ids_match :: "Collection \<Rightarrow> bool" where
  "ids_match c = (\<forall>did doc. Documents c did = Some doc \<longrightarrow> ID doc = did)"

definition collection_ok :: "golib \<Rightarrow> Collection \<Rightarrow> bool" where
  "collection_ok L c = (index_consistent L c \<and> ids_match c)"

section \<open>Sequences of calls, and the maps that a caller shares with the collection\<close>

text \<open>
  \<^verbatim>\<open>Insert\<close> and \<^verbatim>\<open>Update\<close> assign the caller's map to \<^verbatim>\<open>doc.Data\<close>. A Go map is a
  reference: the document and the caller hold the same map, and a write of the caller
  (\<^verbatim>\<open>m[k] = v\<close>, \<^verbatim>\<open>delete(m, k)\<close>) changes the stored document without a call to the
  collection. The service layer of the repository writes in this way before it calls
  \<^verbatim>\<open>Update\<close> (\<^verbatim>\<open>userDoc.Data["last_login"] = ...\<close>, then
  \<^verbatim>\<open>Update(userDoc.ID, userDoc.Data)\<close>).

  A world is the collection together with the maps of the caller: \<open>dataMaps\<close> gives
  the content of the map at each address, \<open>held\<close> the address of the map that each
  stored document holds, and \<open>stored\<close> the collection, in which every document shows
  the present content of its map. A step is one of the four calls, with the address
  of the map that it passes, or a write of the caller to one key of one map (\<open>None\<close>
  deletes the key). A change inside a slice or a map that is the value of a key is a
  write of that key.
\<close>

record World =
  dataMaps :: "nat \<Rightarrow> (string \<rightharpoonup> value)"
  held :: "string \<rightharpoonup> nat"
  stored :: Collection

definition NewWorld :: "string \<Rightarrow> World" where
  "NewWorld name = \<lparr>dataMaps = (\<lambda>r. Map.empty), held = Map.empty, stored = NewCollection name\<rparr>"

datatype step =
    CallInsert string nat Time Time
  | CallUpdate string nat Time
  | CallDelete string
  | CallCreateIndex string "string list"
  | CallerWrite nat string "value option"

text \<open>
  The write reaches the map and with it every stored document that holds the map; the
  indexes are not touched.
\<close>

definition callerWrite :: "World \<Rightarrow> nat \<Rightarrow> string \<Rightarrow> value option \<Rightarrow> World" where
  "callerWrite w r k v =
     w\<lparr>dataMaps := (dataMaps w)(r := (dataMaps w r)(k := v)),
       stored := (stored w)\<lparr>Documents := (\<lambda>did.
          case Documents (stored w) did of
            None \<Rightarrow> None
          | Some doc \<Rightarrow>
             if held w did = Some r then Some (doc\<lparr>Data := (Data doc)(k := v)\<rparr>)
             else Some doc)\<rparr>\<rparr>"

text \<open>
  A call passes the content that the map at the address has at that moment; after a
  successful \<^verbatim>\<open>Insert\<close> or \<^verbatim>\<open>Update\<close> the document holds that map.
\<close>

fun do_step :: "golib \<Rightarrow> World \<Rightarrow> step \<Rightarrow> World" where
  "do_step L w (CallInsert did r now1 now2) =
     (let res = Insert L (stored w) did (dataMaps w r) now1 now2
      in w\<lparr>stored := snd res,
           held := (if fst res = None then (held w)(did \<mapsto> r) else held w)\<rparr>)"
| "do_step L w (CallUpdate did r now) =
     (let res = Update L (stored w) did (dataMaps w r) now
      in w\<lparr>stored := snd res,
           held := (if fst res = None then (held w)(did \<mapsto> r) else held w)\<rparr>)"
| "do_step L w (CallDelete did) =
     (let res = Delete L (stored w) did
      in w\<lparr>stored := snd res,
           held := (if fst res = None then (held w)(did := None) else held w)\<rparr>)"
| "do_step L w (CallCreateIndex field order) =
     w\<lparr>stored := CreateIndex L (stored w) field order\<rparr>"
| "do_step L w (CallerWrite r k v) = callerWrite w r k v"

definition run_steps :: "golib \<Rightarrow> World \<Rightarrow> step list \<Rightarrow> World" where
  "run_steps L w steps = foldl (do_step L) w steps"

text \<open>
  Every stored document holds a map and shows the content of that map, and only
  stored documents hold maps.
\<close>

definition coherent :: "World \<Rightarrow> bool" where
  "coherent w =
     ((\<forall>did doc. Documents (stored w) did = Some doc \<longrightarrow>
         (\<exists>r. held w did = Some r \<and> Data doc = dataMaps w r))
      \<and> (\<forall>did r. held w did = Some r \<longrightarrow> Documents (stored w) did \<noteq> None))"

text \<open>
  A write of the caller leaves the indexed fields of the stored documents alone when
  no stored document holds the map, or when the key has no index at that moment. A
  sequence of steps is careful when each of its writes does so in the world in which
  it happens.
\<close>

fun leaves_indexed_fields :: "World \<Rightarrow> step \<Rightarrow> bool" where
  "leaves_indexed_fields w (CallerWrite r k v) =
     (r \<notin> ran (held w) \<or> Indexes (stored w) k = None)"
| "leaves_indexed_fields w s = True"

fun careful :: "golib \<Rightarrow> World \<Rightarrow> step list \<Rightarrow> bool" where
  "careful L w [] = True"
| "careful L w (s # steps) = (leaves_indexed_fields w s \<and> careful L (do_step L w s) steps)"

section \<open>Concrete runs\<close>

text \<open>The entry of the index on a field under a key, if there is one.\<close>

definition lookupEntry :: "Collection \<Rightarrow> string \<Rightarrow> string \<Rightarrow> string option" where
  "lookupEntry c field k = (case Indexes c field of None \<Rightarrow> None | Some index \<Rightarrow> Values index k)"

text \<open>
  A careful sequence: the caller fills a map, the index on \<^verbatim>\<open>qty\<close> is created, the map
  is inserted as \<^verbatim>\<open>a\<close>, the caller writes the key \<^verbatim>\<open>seen\<close>, which has no index, into the
  stored map, and \<^verbatim>\<open>a\<close> is updated with a second map.
\<close>

definition steps0 :: "step list" where
  "steps0 = [CallerWrite 0 ''qty'' (Some (VInt 3)),
             CallCreateIndex ''qty'' [],
             CallInsert ''a'' 0 1 1,
             CallerWrite 0 ''seen'' (Some (VBool True)),
             CallerWrite 1 ''qty'' (Some (VInt 5)),
             CallUpdate ''a'' 1 2]"

text \<open>
  The caller inserts a map as \<^verbatim>\<open>a\<close>, writes the indexed key \<^verbatim>\<open>qty\<close> of that map, and
  passes the same map to \<^verbatim>\<open>Update\<close>; and the same sequence without the last call.
\<close>

definition alias_steps :: "step list" where
  "alias_steps = [CallerWrite 0 ''qty'' (Some (VInt 3)),
                  CallCreateIndex ''qty'' [],
                  CallInsert ''a'' 0 1 1,
                  CallerWrite 0 ''qty'' (Some (VInt 4)),
                  CallUpdate ''a'' 0 2]"

definition written_after_insert :: Collection where
  "written_after_insert = stored (run_steps lib0 (NewWorld ''items'')
     [CallerWrite 0 ''qty'' (Some (VInt 3)),
      CallCreateIndex ''qty'' [],
      CallInsert ''a'' 0 1 1,
      CallerWrite 0 ''qty'' (Some (VInt 4))])"

text \<open>
  Two documents with the same value of an indexed field: the index on \<^verbatim>\<open>qty\<close> is
  created first, then \<^verbatim>\<open>a\<close> and \<^verbatim>\<open>b\<close> are inserted with \<^verbatim>\<open>qty = 3\<close>.
\<close>

definition shared_key :: Collection where
  "shared_key =
     snd (Insert lib0
       (snd (Insert lib0 (CreateIndex lib0 (NewCollection ''items'') ''qty'' [])
          ''a'' [''qty'' \<mapsto> VInt 3] 1 1))
       ''b'' [''qty'' \<mapsto> VInt 3] 2 2)"

text \<open>One indexed document, as an import with overwrite finds it.\<close>

definition one_indexed :: Collection where
  "one_indexed =
     snd (Insert lib0 (CreateIndex lib0 (NewCollection ''items'') ''qty'' [])
       ''a'' [''qty'' \<mapsto> VInt 1] 1 1)"

definition overwrite_options :: ImportOptions where
  "overwrite_options = \<lparr>Format = ''json'', CollectionName = ''items'', FilePath = ''in.json'',
     CreateCollection = False, OverwriteData = True, IDField = []\<rparr>"

text \<open>
  The import with overwrite clears the documents of \<open>one_indexed\<close>; then a document
  with the old id and another value is inserted.
\<close>

definition stale_index :: Collection where
  "stale_index = snd (Insert lib0 (ImportData_clear overwrite_options one_indexed)
                        ''a'' [''qty'' \<mapsto> VInt 2] 2 2)"

text \<open>A collection without an index, holding the string \<^verbatim>\<open>1e1\<close>.\<close>

definition no_index :: Collection where
  "no_index = snd (Insert lib0 (NewCollection ''items'') ''a'' [''n'' \<mapsto> VStr ''1e1''] 1 1)"

section \<open>Measuring the sums of a group stage\<close>

text \<open>
  The values of a field in a list of items that parse as numbers, in input order; the
  rational number that a finite \<^verbatim>\<open>float64\<close> is (\<open>0\<close> stands in for the infinities
  and NaN, which the statements below exclude); and the values that the output groups
  hold under an aggregated field.
\<close>

definition numbersOf :: "golib \<Rightarrow> string \<Rightarrow> item list \<Rightarrow> float64 list" where
  "numbersOf L field data = List.map_filter (numericField L field) data"

definition finiteValue :: "float64 \<Rightarrow> rat" where
  "finiteValue x = (case x of Fin r \<Rightarrow> r | _ \<Rightarrow> 0)"

definition groupSumValues :: "string \<Rightarrow> item list \<Rightarrow> rat list" where
  "groupSumValues fieldName out =
     map (\<lambda>g. case g fieldName of Some (VFloat x) \<Rightarrow> finiteValue x | _ \<Rightarrow> 0) out"

text \<open>
  Four items in two groups; the values of \<^verbatim>\<open>f\<close> are \<open>- 2 ^ 53\<close>, \<open>1\<close>, \<open>2 ^ 53\<close>, \<open>1\<close>.
\<close>

definition rounding_items :: "item list" where
  "rounding_items =
     [ [''g'' \<mapsto> VStr ''B'', ''f'' \<mapsto> VInt (- 9007199254740992)],
      [''g'' \<mapsto> VStr ''A'', ''f'' \<mapsto> VInt 1],
      [''g'' \<mapsto> VStr ''A'', ''f'' \<mapsto> VInt 9007199254740992],
      [''g'' \<mapsto> VStr ''B'', ''f'' \<mapsto> VInt 1]]"

definition small_items :: "item list" where
  "small_items =
     [ [''g'' \<mapsto> VStr ''B'', ''f'' \<mapsto> VInt 1],
      [''g'' \<mapsto> VStr ''A'', ''f'' \<mapsto> VInt 9],
      [''g'' \<mapsto> VStr ''A'', ''f'' \<mapsto> VStr ''abc''],
      [''g'' \<mapsto> VStr ''B'', ''f'' \<mapsto> VStr ''1e1'']]"

definition sum_stage :: GroupStage where
  "sum_stage = \<lparr>GroupID = VStr ''g'',
                 Fields = [(''total'', \<lparr>Operation = ''sum'', AggField = ''f''\<rparr>)]\<rparr>"

text \<open>The groups that the stage returns for \<open>rounding_items\<close>, visited as \<^verbatim>\<open>A\<close>, \<^verbatim>\<open>B\<close>.\<close>

definition rounding_groups :: "item list" where
  "rounding_groups =
     [ [''_id'' \<mapsto> VStr ''A'', ''total'' \<mapsto> VFloat (Fin 9007199254740992)],
      [''_id'' \<mapsto> VStr ''B'', ''total'' \<mapsto> VFloat (Fin (- 9007199254740991))]]"

definition small_groups :: "item list" where
  "small_groups =
     [ [''_id'' \<mapsto> VStr ''A'', ''total'' \<mapsto> VFloat (Fin 9)],
      [''_id'' \<mapsto> VStr ''B'', ''total'' \<mapsto> VFloat (Fin 11)]]"

section \<open>Concrete queries\<close>

text \<open>
  Four documents for sorting by \<^verbatim>\<open>n\<close>: two lack the field, one holds the integer
  \<open>1\<close> and one the string \<^verbatim>\<open>1\<close>, which compare equal.
\<close>

definition absent1 :: Document where
  "absent1 = \<lparr>ID = ''a'', Data = Map.empty, CreatedAt = 1, UpdatedAt = 1\<rparr>"
definition one_int :: Document where
  "one_int = \<lparr>ID = ''b'', Data = [''n'' \<mapsto> VInt 1], CreatedAt = 2, UpdatedAt = 2\<rparr>"
definition one_str :: Document where
  "one_str = \<lparr>ID = ''c'', Data = [''n'' \<mapsto> VStr ''1''], CreatedAt = 3, UpdatedAt = 3\<rparr>"
definition absent2 :: Document where
  "absent2 = \<lparr>ID = ''d'', Data = Map.empty, CreatedAt = 4, UpdatedAt = 4\<rparr>"

definition by_n_ascending :: QueryBuilder where
  "by_n_ascending = Sort (NewQuery (NewCollection ''items'')) ''n'' True"
definition by_n_descending :: QueryBuilder where
  "by_n_descending = Sort (NewQuery (NewCollection ''items'')) ''n'' False"






section \<open>The index invariant is kept by every call\<close>

lemma ids_match_Insert: "ids_match c \<Longrightarrow> ids_match (snd (Insert L c did data t1 t2))"
  by (auto simp: ids_match_def Insert_def updateIndexes_def Let_def split: if_splits)

lemma ids_match_Update: "ids_match c \<Longrightarrow> ids_match (snd (Update L c did data t))"
  by (auto simp: ids_match_def Update_def updateIndexes_def removeFromIndexes_def Let_def
      split: option.splits if_splits)

lemma ids_match_Delete: "ids_match c \<Longrightarrow> ids_match (snd (Delete L c did))"
  by (auto simp: ids_match_def Delete_def removeFromIndexes_def Let_def
      split: option.splits if_splits)

lemma ids_match_CreateIndex: "ids_match c \<Longrightarrow> ids_match (CreateIndex L c field order)"
  by (simp add: ids_match_def CreateIndex_def Let_def)

lemma index_consistent_Insert:
  assumes "index_consistent L c"
  shows "index_consistent L (snd (Insert L c did data t1 t2))"
proof (cases "Documents c did")
  case (Some d)
  with assms show ?thesis by (simp add: Insert_def)
next
  case None
  show ?thesis
    unfolding index_consistent_def
  proof (intro allI impI, elim conjE)
    fix f index k i
    assume I: "Indexes (snd (Insert L c did data t1 t2)) f = Some index"
      and V: "Values index k = Some i"
    from I None obtain old where old: "Indexes c f = Some old"
      by (auto simp: Insert_def updateIndexes_def Let_def split: option.splits)
    show "\<exists>doc v. Documents (snd (Insert L c did data t1 t2)) i = Some doc
            \<and> Data doc f = Some v \<and> sprintv L v = k"
    proof (cases "data f")
      case dn: None
      with I None old have "index = old"
        by (simp add: Insert_def updateIndexes_def Let_def)
      with V old assms obtain doc v where
        "Documents c i = Some doc" "Data doc f = Some v" "sprintv L v = k"
        unfolding index_consistent_def by blast
      with None show ?thesis
        by (auto simp: Insert_def updateIndexes_def Let_def)
    next
      case (Some v0)
      with I None old have idx: "index = old\<lparr>Values := (Values old)(sprintv L v0 \<mapsto> did)\<rparr>"
        by (simp add: Insert_def updateIndexes_def Let_def)
      show ?thesis
      proof (cases "k = sprintv L v0")
        case True
        with idx V have "i = did" by simp
        with True Some None show ?thesis
          by (simp add: Insert_def updateIndexes_def Let_def)
      next
        case False
        with idx V have "Values old k = Some i" by simp
        with old assms obtain doc v where
          "Documents c i = Some doc" "Data doc f = Some v" "sprintv L v = k"
          unfolding index_consistent_def by blast
        with None show ?thesis
          by (auto simp: Insert_def updateIndexes_def Let_def)
      qed
    qed
  qed
qed

text \<open>After removeFromIndexes no entry refers to the document.\<close>
lemma removeFromIndexes_no_entry:
  assumes "index_consistent L c" "Documents c did = Some doc"
    and "Indexes (removeFromIndexes L c doc) f = Some index"
  shows "Values index k \<noteq> Some did"
proof
  assume V: "Values index k = Some did"
  from assms(3) obtain old where old: "Indexes c f = Some old"
    by (auto simp: removeFromIndexes_def split: option.splits)
  show False
  proof (cases "Data doc f")
    case None
    with assms(3) old have "index = old" by (simp add: removeFromIndexes_def)
    with V old assms(1,2) None show False
      unfolding index_consistent_def by fastforce
  next
    case (Some v0)
    with assms(3) old have idx: "index = old\<lparr>Values := (Values old)(sprintv L v0 := None)\<rparr>"
      by (simp add: removeFromIndexes_def)
    with V have k: "k \<noteq> sprintv L v0" and "Values old k = Some did"
      by (auto split: if_splits)
    with old assms(1,2) Some show False
      unfolding index_consistent_def by fastforce
  qed
qed

lemma removeFromIndexes_entry_old:
  assumes "Indexes (removeFromIndexes L c doc) f = Some index" "Values index k = Some i"
  shows "\<exists>old. Indexes c f = Some old \<and> Values old k = Some i"
  using assms
  by (auto simp: removeFromIndexes_def split: option.splits if_splits)

lemma index_consistent_Delete:
  assumes "index_consistent L c"
  shows "index_consistent L (snd (Delete L c did))"
proof (cases "Documents c did")
  case None
  with assms show ?thesis by (simp add: Delete_def)
next
  case (Some doc)
  show ?thesis
    unfolding index_consistent_def
  proof (intro allI impI, elim conjE)
    fix f index k i
    assume I: "Indexes (snd (Delete L c did)) f = Some index"
      and V: "Values index k = Some i"
    from I Some have I': "Indexes (removeFromIndexes L c doc) f = Some index"
      by (simp add: Delete_def Let_def)
    from removeFromIndexes_no_entry [OF assms Some I'] V have ne: "i \<noteq> did" by auto
    from removeFromIndexes_entry_old [OF I' V] assms obtain d v where
      "Documents c i = Some d" "Data d f = Some v" "sprintv L v = k"
      unfolding index_consistent_def by blast
    with ne Some show "\<exists>doc v. Documents (snd (Delete L c did)) i = Some doc
            \<and> Data doc f = Some v \<and> sprintv L v = k"
      by (simp add: Delete_def Let_def removeFromIndexes_def)
  qed
qed

lemma index_consistent_Update:
  assumes "index_consistent L c" "ids_match c"
  shows "index_consistent L (snd (Update L c did data t))"
proof (cases "Documents c did")
  case None
  with assms show ?thesis by (simp add: Update_def)
next
  case (Some doc)
  define c1 where "c1 = removeFromIndexes L c doc"
  define doc' where "doc' = doc\<lparr>Data := data, UpdatedAt := t\<rparr>"
  define c3 where "c3 = updateIndexes L (c1\<lparr>Documents := (Documents c1)(did \<mapsto> doc')\<rparr>) doc'"
  have res: "snd (Update L c did data t) = c3"
    using Some by (simp add: Update_def Let_def c1_def doc'_def c3_def)
  have docs3: "Documents c3 = (Documents c)(did \<mapsto> doc')"
    by (simp add: c3_def c1_def removeFromIndexes_def updateIndexes_def)
  have id': "ID doc' = did"
    using assms(2) Some by (simp add: ids_match_def doc'_def)
  show ?thesis
    unfolding index_consistent_def res
  proof (intro allI impI, elim conjE)
    fix f index k i
    assume I: "Indexes c3 f = Some index" and V: "Values index k = Some i"
    from I obtain mid where mid: "Indexes c1 f = Some mid"
      by (auto simp: c3_def updateIndexes_def split: option.splits)
    have old_ok: "\<exists>d v. Documents c3 i = Some d \<and> Data d f = Some v \<and> sprintv L v = k"
      if "Values mid k = Some i"
    proof -
      from removeFromIndexes_no_entry [OF assms(1) Some mid [unfolded c1_def]] that
      have ne: "i \<noteq> did" by auto
      from removeFromIndexes_entry_old [OF mid [unfolded c1_def] that] assms(1) obtain d v where
        "Documents c i = Some d" "Data d f = Some v" "sprintv L v = k"
        unfolding index_consistent_def by blast
      with ne show ?thesis by (simp add: docs3)
    qed
    show "\<exists>d v. Documents c3 i = Some d \<and> Data d f = Some v \<and> sprintv L v = k"
    proof (cases "data f")
      case None
      with I mid have "index = mid" by (simp add: c3_def updateIndexes_def doc'_def)
      with V old_ok show ?thesis by simp
    next
      case (Some v0)
      with I mid have idx: "index = mid\<lparr>Values := (Values mid)(sprintv L v0 \<mapsto> did)\<rparr>"
        using id' by (simp add: c3_def updateIndexes_def doc'_def)
      show ?thesis
      proof (cases "k = sprintv L v0")
        case True
        with idx V have "i = did" by simp
        with True Some show ?thesis by (simp add: docs3 doc'_def)
      next
        case False
        with idx V have "Values mid k = Some i" by simp
        then show ?thesis by (rule old_ok)
      qed
    qed
  qed
qed

lemma fold_indexDocument_entries:
  assumes "Values (fold (indexDocument L field) docs index0) k = Some i"
  shows "Values index0 k = Some i
         \<or> (\<exists>doc v. doc \<in> set docs \<and> ID doc = i \<and> Data doc field = Some v \<and> sprintv L v = k)"
  using assms
proof (induction docs arbitrary: index0)
  case Nil
  then show ?case by simp
next
  case (Cons d ds)
  from Cons.IH [of "indexDocument L field d index0"] Cons.prems
  consider "Values (indexDocument L field d index0) k = Some i"
    | "\<exists>doc v. doc \<in> set ds \<and> ID doc = i \<and> Data doc field = Some v \<and> sprintv L v = k"
    by auto
  then show ?case
  proof cases
    case 1
    then show ?thesis
      by (auto simp: indexDocument_def split: option.splits if_splits)
  next
    case 2
    then show ?thesis by auto
  qed
qed

lemma rangeDocuments_mem:
  "doc \<in> set (rangeDocuments c order) \<Longrightarrow> \<exists>did. Documents c did = Some doc"
  by (auto simp: rangeDocuments_def List.map_filter_def)

lemma rangeDocuments_iterates:
  assumes "iterates order (Documents c)"
  shows "set (rangeDocuments c order) = ran (Documents c)"
    and "distinct order"
  using assms
  by (force simp: iterates_def rangeDocuments_def List.map_filter_def ran_def dom_def)+

lemma index_consistent_CreateIndex:
  assumes "index_consistent L c" "ids_match c"
  shows "index_consistent L (CreateIndex L c field order)"
  unfolding index_consistent_def
proof (intro allI impI, elim conjE)
  fix f index k i
  assume I: "Indexes (CreateIndex L c field order) f = Some index"
    and V: "Values index k = Some i"
  have docs: "Documents (CreateIndex L c field order) = Documents c"
    by (simp add: CreateIndex_def Let_def)
  show "\<exists>doc v. Documents (CreateIndex L c field order) i = Some doc
          \<and> Data doc f = Some v \<and> sprintv L v = k"
  proof (cases "f = field")
    case False
    with I have "Indexes c f = Some index" by (simp add: CreateIndex_def Let_def)
    with V assms(1) show ?thesis unfolding index_consistent_def docs by blast
  next
    case True
    with I have "index = fold (indexDocument L field) (rangeDocuments c order)
                           \<lparr>IndexField = field, Values = Map.empty\<rparr>"
      by (simp add: CreateIndex_def Let_def)
    with V fold_indexDocument_entries [of L field "rangeDocuments c order"
        "\<lparr>IndexField = field, Values = Map.empty\<rparr>" k i]
    obtain doc v where d: "doc \<in> set (rangeDocuments c order)" "ID doc = i"
      "Data doc field = Some v" "sprintv L v = k"
      by auto
    from rangeDocuments_mem [OF d(1)] obtain did where "Documents c did = Some doc" ..
    with assms(2) d(2) have "Documents c i = Some doc" by (auto simp: ids_match_def)
    with d True show ?thesis by (simp add: docs)
  qed
qed

lemma collection_ok_callerWrite:
  assumes "collection_ok L (stored w)"
    and "r \<notin> ran (held w) \<or> Indexes (stored w) k = None"
  shows "collection_ok L (stored (callerWrite w r k v))"
proof -
  have I: "Indexes (stored (callerWrite w r k v)) = Indexes (stored w)"
    by (simp add: callerWrite_def)
  have D: "Documents (stored (callerWrite w r k v)) did =
             (case Documents (stored w) did of
                None \<Rightarrow> None
              | Some doc \<Rightarrow>
                 if held w did = Some r then Some (doc\<lparr>Data := (Data doc)(k := v)\<rparr>)
                 else Some doc)" for did
    by (simp add: callerWrite_def)
  have "ids_match (stored (callerWrite w r k v))"
    using assms(1) unfolding collection_ok_def ids_match_def D
    by (auto split: option.splits if_splits)
  moreover have "index_consistent L (stored (callerWrite w r k v))"
    unfolding index_consistent_def I
  proof (intro allI impI)
    fix f index key did
    assume e: "Indexes (stored w) f = Some index \<and> Values index key = Some did"
    with assms(1) obtain doc x where
      d: "Documents (stored w) did = Some doc" "Data doc f = Some x" "sprintv L x = key"
      unfolding collection_ok_def index_consistent_def by blast
    show "\<exists>doc x. Documents (stored (callerWrite w r k v)) did = Some doc
            \<and> Data doc f = Some x \<and> sprintv L x = key"
    proof (cases "held w did = Some r")
      case False
      with d show ?thesis by (simp add: D)
    next
      case True
      then have "r \<in> ran (held w)" by (auto simp: ran_def)
      with assms(2) have "Indexes (stored w) k = None" by simp
      with e have "f \<noteq> k" by auto
      with d True show ?thesis by (simp add: D)
    qed
  qed
  ultimately show ?thesis by (simp add: collection_ok_def)
qed

lemma collection_ok_do_step:
  "collection_ok L (stored w) \<Longrightarrow> leaves_indexed_fields w s
     \<Longrightarrow> collection_ok L (stored (do_step L w s))"
proof (cases s)
  case (CallerWrite r k v)
  assume "collection_ok L (stored w)" "leaves_indexed_fields w s"
  with CallerWrite show ?thesis by (simp add: collection_ok_callerWrite)
qed (simp_all add: collection_ok_def Let_def ids_match_Insert ids_match_Update ids_match_Delete
      ids_match_CreateIndex index_consistent_Insert index_consistent_Update
      index_consistent_Delete index_consistent_CreateIndex)

lemma collection_ok_run_steps:
  "collection_ok L (stored w) \<Longrightarrow> careful L w steps
     \<Longrightarrow> collection_ok L (stored (run_steps L w steps))"
  unfolding run_steps_def
  by (induction steps arbitrary: w) (simp_all add: collection_ok_do_step)

text \<open>
  In every world that a sequence of steps reaches, each stored document shows the
  content of the map it holds.
\<close>

lemma coherent_callerWrite:
  assumes c: "coherent w"
  shows "coherent (callerWrite w r k v)"
  unfolding coherent_def
proof (intro conjI allI impI)
  fix did doc'
  assume a: "Documents (stored (callerWrite w r k v)) did = Some doc'"
  then obtain doc where d: "Documents (stored w) did = Some doc"
    by (auto simp: callerWrite_def split: option.splits)
  with c obtain q where q: "held w did = Some q" "Data doc = dataMaps w q"
    unfolding coherent_def by blast
  show "\<exists>q. held (callerWrite w r k v) did = Some q
          \<and> Data doc' = dataMaps (callerWrite w r k v) q"
  proof (cases "q = r")
    case True
    with a d q show ?thesis by (auto simp: callerWrite_def)
  next
    case False
    with a d q show ?thesis by (auto simp: callerWrite_def)
  qed
next
  fix did q
  assume "held (callerWrite w r k v) did = Some q"
  then have "held w did = Some q" by (simp add: callerWrite_def)
  with c have "Documents (stored w) did \<noteq> None"
    unfolding coherent_def by blast
  then show "Documents (stored (callerWrite w r k v)) did \<noteq> None"
    by (auto simp: callerWrite_def)
qed

lemma coherent_do_step: "coherent w \<Longrightarrow> coherent (do_step L w s)"
proof (cases s)
  case (CallInsert did r now1 now2)
  assume "coherent w"
  with CallInsert show ?thesis
    by (auto simp: coherent_def Insert_def updateIndexes_def Let_def split: if_splits)
next
  case (CallUpdate did r now)
  assume "coherent w"
  with CallUpdate show ?thesis
    by (auto simp: coherent_def Update_def updateIndexes_def removeFromIndexes_def Let_def
        split: option.splits if_splits)
next
  case (CallDelete did)
  assume "coherent w"
  with CallDelete show ?thesis
    by (auto simp: coherent_def Delete_def removeFromIndexes_def Let_def
        split: option.splits if_splits)
next
  case (CallCreateIndex field order)
  assume "coherent w"
  with CallCreateIndex show ?thesis
    by (auto simp: coherent_def CreateIndex_def Let_def)
next
  case (CallerWrite r k v)
  assume "coherent w"
  with CallerWrite show ?thesis by (simp add: coherent_callerWrite)
qed

lemma coherent_run_steps: "coherent (run_steps L (NewWorld name) steps)"
proof -
  have "coherent w \<Longrightarrow> coherent (foldl (do_step L) w steps)" for w
    by (induction steps arbitrary: w) (simp_all add: coherent_do_step)
  moreover have "coherent (NewWorld name)"
    by (simp add: coherent_def NewWorld_def NewCollection_def)
  ultimately show ?thesis by (simp add: run_steps_def)
qed

lemma collection_ok_NewCollection: "collection_ok L (NewCollection name)"
  by (simp add: collection_ok_def index_consistent_def ids_match_def NewCollection_def)

lemma collection_ok_NewWorld: "collection_ok L (stored (NewWorld name))"
  by (simp add: NewWorld_def collection_ok_NewCollection)

section \<open>Facts about the \<^verbatim>\<open>float64\<close> model\<close>

text \<open>Integers up to \<open>2 ^ 53\<close> in magnitude are binary64 numbers, and sums that stay in this range are exact.\<close>

lemma bitLength_pos: "0 < n \<Longrightarrow> 1 \<le> bitLength n"
proof (induction n rule: bitLength.induct)
  case (1 n)
  show ?case
  proof (cases "0 < n div 2")
    case True
    with 1 have "1 \<le> bitLength (n div 2)" by simp
    with 1 show ?thesis by (subst bitLength.simps) simp
  next
    case False
    then have "bitLength (n div 2) = 0" by (subst bitLength.simps) simp
    with 1 show ?thesis by (subst bitLength.simps) simp
  qed
qed

lemma bitLength_bounds:
  "0 < n \<Longrightarrow> 2 ^ nat (bitLength n - 1) \<le> n \<and> n < 2 ^ nat (bitLength n)"
proof (induction n rule: bitLength.induct)
  case (1 n)
  show ?case
  proof (cases "0 < n div 2")
    case False
    with 1 have n1: "n = 1" by linarith
    have "bitLength 0 = 0" by (subst bitLength.simps) simp
    then have "bitLength 1 = 1" by (subst bitLength.simps) simp
    with n1 show ?thesis by simp
  next
    case True
    with 1 have IH: "2 ^ nat (bitLength (n div 2) - 1) \<le> n div 2"
      "n div 2 < 2 ^ nat (bitLength (n div 2))" by simp_all
    from True have p: "1 \<le> bitLength (n div 2)" by (rule bitLength_pos)
    have b: "bitLength n = bitLength (n div 2) + 1"
      using 1(2) by (subst bitLength.simps) simp
    have e1: "nat (bitLength n - 1) = Suc (nat (bitLength (n div 2) - 1))"
      using p b by simp
    have e2: "nat (bitLength n) = Suc (nat (bitLength (n div 2)))"
      using p b by simp
    from IH show ?thesis unfolding e1 e2 by simp linarith
  qed
qed

lemma roundHalfEven_of_int [simp]: "roundHalfEven (of_int k) = k"
  by (simp add: roundHalfEven_def)

lemma roundMag64_of_int:
  assumes "0 < n" "n \<le> 2 ^ 53"
  shows "roundMag64 (of_int n) = of_int n"
proof -
  define e where "e = bitLength n - 1"
  from bitLength_bounds [OF assms(1)] have lo: "2 ^ nat e \<le> n" and hi: "n < 2 ^ nat (e + 1)"
    by (simp_all add: e_def)
  from bitLength_pos [OF assms(1)] have e0: "0 \<le> e" by (simp add: e_def)
  have e53: "e \<le> 53"
  proof (rule ccontr)
    assume "\<not> e \<le> 53"
    then have "54 \<le> nat e" by simp
    then have "(2::int) ^ 54 \<le> 2 ^ nat e" by (intro power_increasing) simp_all
    with lo assms(2) show False by simp
  qed
  have il: "ilog2 (of_int n) = e"
    using assms(1) by (simp add: ilog2_def e_def)
  have mx: "max e (- 1022) = e" using e0 by simp
  show ?thesis
  proof (cases "e \<le> 52")
    case True
    have q: "pow2 (e - 52) = 1 / 2 ^ nat (52 - e)"
    proof (cases "e = 52")
      case True then show ?thesis by (simp add: pow2_def)
    next
      case False
      with True have "e - 52 < 0" by simp
      then show ?thesis by (simp add: pow2_def)
    qed
    have "(of_int n :: rat) / (1 / 2 ^ nat (52 - e)) = of_int (n * 2 ^ nat (52 - e))"
      by simp
    then have "roundHalfEven (of_int n / (1 / 2 ^ nat (52 - e))) = n * 2 ^ nat (52 - e)"
      by (simp only: roundHalfEven_of_int)
    then show ?thesis
      unfolding roundMag64_def il mx Let_def q by simp
  next
    case False
    with e53 have e: "e = 53" by simp
    with lo assms(2) have n: "n = 2 ^ 53" by simp
    have "(of_int n :: rat) / pow2 (e - 52) = of_int (2 ^ 52)"
      by (simp add: e n pow2_def)
    then have "roundHalfEven (of_int n / pow2 (e - 52)) = 2 ^ 52"
      by (simp only: roundHalfEven_of_int)
    then show ?thesis
      unfolding roundMag64_def il mx Let_def by (simp add: e n pow2_def)
  qed
qed

lemma pow2_1024_gt: "m \<le> 2 ^ 53 \<Longrightarrow> \<not> pow2 1024 \<le> (of_int m :: rat)"
proof -
  assume "m \<le> 2 ^ 53"
  then have "(of_int m :: rat) \<le> 2 ^ 53"
    by (metis of_int_le_iff of_int_numeral of_int_power)
  moreover have "(2::rat) ^ 53 < 2 ^ 1024" by (rule power_strict_increasing) simp_all
  ultimately show ?thesis by (simp add: pow2_def)
qed

lemma roundFloat64_of_int:
  assumes "\<bar>n\<bar> \<le> 2 ^ 53"
  shows "roundFloat64 (of_int n) = Fin (of_int n)"
proof (cases "n = 0")
  case True
  then show ?thesis by (simp add: roundFloat64_def)
next
  case False
  then have p: "0 < \<bar>n\<bar>" by simp
  have a: "\<bar>of_int n :: rat\<bar> = of_int \<bar>n\<bar>" by simp
  have r: "roundMag64 \<bar>of_int n\<bar> = of_int \<bar>n\<bar>"
    unfolding a by (rule roundMag64_of_int [OF p assms])
  have nz: "(of_int \<bar>n\<bar> :: rat) \<noteq> 0" using False by simp
  show ?thesis
    using False pow2_1024_gt [OF assms] nz
    unfolding roundFloat64_def r Let_def
    by (auto simp: abs_if)
qed

lemma roundFloat64_numeral:
  "(numeral k :: int) \<le> 2 ^ 53 \<Longrightarrow> roundFloat64 (numeral k) = Fin (numeral k)"
  "(numeral k :: int) \<le> 2 ^ 53 \<Longrightarrow> roundFloat64 (- numeral k) = Fin (- numeral k)"
  "roundFloat64 1 = Fin 1"
  using roundFloat64_of_int [of "numeral k"] roundFloat64_of_int [of "- numeral k"]
    roundFloat64_of_int [of 1]
  by simp_all

lemma f64_add_of_int:
  "\<bar>a + b\<bar> \<le> 2 ^ 53 \<Longrightarrow> f64_add (Fin (of_int a)) (Fin (of_int b)) = Fin (of_int (a + b))"
  using roundFloat64_of_int [of "a + b"] by simp


text \<open>Evaluation of \<^verbatim>\<open>ParseFloat\<close> at the texts used below.\<close>

lemmas ParseFloat_syntax_defs =
  ParseFloat_def special_def readFloat_def digitVal_def hexLetterVal_def scanExponent_def
  underscoreOK_def infinityPrefix_def asciiLower_def Let_def

lemma roundMag64_small:
  "roundMag64 1 = 1" "roundMag64 9 = 9" "roundMag64 10 = 10" "roundMag64 12 = 12"
  "roundMag64 9007199254740992 = 9007199254740992"
  using roundMag64_of_int [of 1] roundMag64_of_int [of 9] roundMag64_of_int [of 10]
    roundMag64_of_int [of 12] roundMag64_of_int [of 9007199254740992]
  by simp_all

lemma ParseFloat_eval:
  "ParseFloat ''1'' = Some (Fin 1)"
  "ParseFloat ''9'' = Some (Fin 9)"
  "ParseFloat ''10'' = Some (Fin 10)"
  "ParseFloat ''12'' = Some (Fin 12)"
  "ParseFloat ''1e1'' = Some (Fin 10)"
  "ParseFloat ''9007199254740992'' = Some (Fin 9007199254740992)"
  "ParseFloat ''-9007199254740992'' = Some (Fin (- 9007199254740992))"
  "ParseFloat ''abc'' = None"
  by (simp_all add: ParseFloat_syntax_defs roundMag64_small pow2_def pow10_def)




lemma floor_rat_numeral_div:
  "\<lfloor>(numeral a :: rat) / numeral b\<rfloor> = numeral a div numeral b"
  using floor_divide_of_int_eq [of "numeral a" "numeral b", where ?'a = rat] by simp

lemma ceiling_rat_numeral_div:
  "\<lceil>(numeral a :: rat) / numeral b\<rceil> = - (- numeral a div numeral b)"
  using floor_divide_of_int_eq [of "- numeral a" "numeral b", where ?'a = rat]
  by (simp add: ceiling_def)

lemmas round_eval_defs =
  roundMag64_def ilog2_def pow2_def roundHalfEven_def bitLength.simps Let_def
  floor_rat_numeral_div ceiling_rat_numeral_div

lemma roundMag64_tie: "roundMag64 9007199254740993 = 9007199254740992"
  by (simp add: round_eval_defs)

lemma roundFloat64_tie: "roundFloat64 9007199254740993 = Fin 9007199254740992"
  by (simp add: roundFloat64_def roundMag64_tie pow2_def)

lemma f64_add_eval:
  "f64_add (Fin 0) (Fin 1) = Fin 1"
  "f64_add (Fin 1) (Fin 1) = Fin 2"
  "f64_add (Fin 0) (Fin (- 9007199254740992)) = Fin (- 9007199254740992)"
  "f64_add (Fin (- 9007199254740992)) (Fin 1) = Fin (- 9007199254740991)"
  "f64_add (Fin (- 9007199254740991)) (Fin 9007199254740992) = Fin 1"
  "f64_add (Fin 1) (Fin 9007199254740992) = Fin 9007199254740992"
  using f64_add_of_int [of 0 1] f64_add_of_int [of 1 1] f64_add_of_int [of 0 "- 9007199254740992"]
    f64_add_of_int [of "- 9007199254740992" 1] f64_add_of_int [of "- 9007199254740991" 9007199254740992]
  by (simp_all add: roundFloat64_def roundMag64_tie pow2_def del: f64_add.simps)
     (simp_all add: roundFloat64_def roundMag64_tie pow2_def)

section \<open>The bubble sort of \<^verbatim>\<open>sortDocuments\<close>\<close>

lemma length_sortDocuments_inner [simp]:
  "length (sortDocuments_inner L qb n i j docs) = length docs"
  by (induction L qb n i j docs rule: sortDocuments_inner.induct)
     (subst sortDocuments_inner.simps, simp)

lemma length_sortDocuments_outer [simp]:
  "length (sortDocuments_outer L qb n i docs) = length docs"
  by (induction L qb n i docs rule: sortDocuments_outer.induct)
     (subst sortDocuments_outer.simps, simp)

lemma length_sortDocuments [simp]: "length (sortDocuments L qb docs) = length docs"
  by (simp add: sortDocuments_def)

lemma mset_sortDocuments_inner:
  "n \<le> length docs \<Longrightarrow> mset (sortDocuments_inner L qb n i j docs) = mset docs"
proof (induction L qb n i j docs rule: sortDocuments_inner.induct)
  case (1 L qb n i j docs)
  show ?case
  proof (cases "j + i + 1 < n")
    case False
    then show ?thesis by (subst sortDocuments_inner.simps) simp
  next
    case True
    with 1(2) have r: "j < length docs" "j + 1 < length docs" by simp_all
    from 1(1) [OF True] 1(2) r show ?thesis
      by (subst sortDocuments_inner.simps) (simp add: True mset_swap)
  qed
qed

lemma mset_sortDocuments_outer:
  "n \<le> length docs \<Longrightarrow> mset (sortDocuments_outer L qb n i docs) = mset docs"
proof (induction L qb n i docs rule: sortDocuments_outer.induct)
  case (1 L qb n i docs)
  then show ?case
    by (subst sortDocuments_outer.simps) (simp add: mset_sortDocuments_inner)
qed

lemma filter_swap_adjacent:
  "j + 1 < length xs \<Longrightarrow> \<not> (P (xs ! j) \<and> P (xs ! (j + 1)))
     \<Longrightarrow> filter P (xs[j := xs ! (j + 1), j + 1 := xs ! j]) = filter P xs"
proof (induction xs arbitrary: j)
  case Nil
  then show ?case by simp
next
  case (Cons a xs)
  show ?case
  proof (cases j)
    case 0
    with Cons.prems obtain b rest where "xs = b # rest" by (cases xs) auto
    with 0 Cons.prems show ?thesis by auto
  next
    case (Suc j')
    with Cons.prems have "j' + 1 < length xs" "\<not> (P (xs ! j') \<and> P (xs ! (j' + 1)))"
      by simp_all
    from Cons.IH [OF this] Suc show ?thesis by simp
  qed
qed

lemma filter_sortDocuments_inner:
  "\<forall>a b. P a \<and> P b \<longrightarrow> \<not> shouldSwap L qb a b \<Longrightarrow> n \<le> length docs
     \<Longrightarrow> filter P (sortDocuments_inner L qb n i j docs) = filter P docs"
proof (induction L qb n i j docs rule: sortDocuments_inner.induct)
  case (1 L qb n i j docs)
  show ?case
  proof (cases "j + i + 1 < n")
    case False
    then show ?thesis by (subst sortDocuments_inner.simps) simp
  next
    case True
    with 1(3) have r: "j + 1 < length docs" by simp
    show ?thesis
    proof (cases "shouldSwap L qb (docs ! j) (docs ! (j + 1))")
      case sw: True
      with 1(2) have "\<not> (P (docs ! j) \<and> P (docs ! (j + 1)))" by blast
      from filter_swap_adjacent [OF r this] 1(1) [OF True 1(2)] 1(3) sw True show ?thesis
        by (subst sortDocuments_inner.simps) simp
    next
      case False
      with 1(1) [OF True 1(2)] 1(3) True show ?thesis
        by (subst sortDocuments_inner.simps) simp
    qed
  qed
qed

lemma filter_sortDocuments_outer:
  "\<forall>a b. P a \<and> P b \<longrightarrow> \<not> shouldSwap L qb a b \<Longrightarrow> n \<le> length docs
     \<Longrightarrow> filter P (sortDocuments_outer L qb n i docs) = filter P docs"
proof (induction L qb n i docs rule: sortDocuments_outer.induct)
  case (1 L qb n i docs)
  then show ?case
    by (subst sortDocuments_outer.simps) (simp add: filter_sortDocuments_inner)
qed

text \<open>One pass of the inner loop over the positions \<open>j \<dots> n - i - 1\<close>.\<close>

lemma sortDocuments_inner_pass:
  "\<forall>a b. H a \<and> \<not> H b \<longrightarrow> shouldSwap L qb a b
   \<Longrightarrow> \<forall>a b. \<not> H a \<and> H b \<longrightarrow> \<not> shouldSwap L qb a b
   \<Longrightarrow> n \<le> length docs \<Longrightarrow> j + i + 1 \<le> n \<Longrightarrow>
    (\<forall>k. k < j \<or> n - i - 1 < k \<longrightarrow> sortDocuments_inner L qb n i j docs ! k = docs ! k)
    \<and> ((\<exists>k. j \<le> k \<and> k \<le> n - i - 1 \<and> H (docs ! k))
          \<longrightarrow> H (sortDocuments_inner L qb n i j docs ! (n - i - 1)))
    \<and> (\<forall>k. j \<le> k \<and> k \<le> n - i - 1 \<and> H (sortDocuments_inner L qb n i j docs ! k)
          \<longrightarrow> (\<exists>k'. j \<le> k' \<and> k' \<le> n - i - 1 \<and> H (docs ! k')))"
proof (induction L qb n i j docs rule: sortDocuments_inner.induct)
  case (1 L qb n i j docs)
  note S1 = 1(2) and S2 = 1(3) and ln = 1(4) and jn = 1(5)
  let ?b = "n - i - 1"
  show ?case
  proof (cases "j + i + 1 < n")
    case False
    with jn have jb: "j = ?b" by simp
    have r: "sortDocuments_inner L qb n i j docs = docs"
      using False by (subst sortDocuments_inner.simps) simp
    show ?thesis unfolding r using jb by auto
  next
    case True
    define docs' where "docs' = (if shouldSwap L qb (docs ! j) (docs ! (j + 1))
           then docs[j := docs ! (j + 1), j + 1 := docs ! j] else docs)"
    have r: "sortDocuments_inner L qb n i j docs = sortDocuments_inner L qb n i (j + 1) docs'"
      using True by (subst sortDocuments_inner.simps) (simp add: docs'_def)
    from True ln have len: "j + 1 < length docs" and jb: "j + 1 \<le> ?b" by simp_all
    have len': "n \<le> length docs'" using ln by (simp add: docs'_def)
    from True have "j + 1 + i + 1 \<le> n" by simp
    from 1(1) [OF True S1 S2 len' [unfolded docs'_def] this, folded docs'_def]
    have IHa: "\<And>k. k < j + 1 \<or> ?b < k \<Longrightarrow> sortDocuments_inner L qb n i (j + 1) docs' ! k = docs' ! k"
      and IHb: "(\<exists>k. j + 1 \<le> k \<and> k \<le> ?b \<and> H (docs' ! k))
          \<Longrightarrow> H (sortDocuments_inner L qb n i (j + 1) docs' ! ?b)"
      and IHc: "\<And>k. j + 1 \<le> k \<and> k \<le> ?b \<and> H (sortDocuments_inner L qb n i (j + 1) docs' ! k)
          \<Longrightarrow> (\<exists>k'. j + 1 \<le> k' \<and> k' \<le> ?b \<and> H (docs' ! k'))"
      by blast+
    have other: "docs' ! k = docs ! k" if "k \<noteq> j" "k \<noteq> j + 1" for k
      using that by (simp add: docs'_def)
    have atj: "docs' ! j = docs ! j \<and> docs' ! (j + 1) = docs ! (j + 1)
              \<or> docs' ! j = docs ! (j + 1) \<and> docs' ! (j + 1) = docs ! j"
      using len by (simp add: docs'_def)
    have a: "\<forall>k. k < j \<or> ?b < k \<longrightarrow> sortDocuments_inner L qb n i j docs ! k = docs ! k"
    proof (intro allI impI)
      fix k assume k: "k < j \<or> ?b < k"
      with jb have "k \<noteq> j" "k \<noteq> j + 1" by auto
      with IHa [of k] k other [of k] show "sortDocuments_inner L qb n i j docs ! k = docs ! k"
        unfolding r by auto
    qed
    have b: "(\<exists>k. j \<le> k \<and> k \<le> ?b \<and> H (docs ! k))
          \<longrightarrow> H (sortDocuments_inner L qb n i j docs ! ?b)"
    proof
      assume "\<exists>k. j \<le> k \<and> k \<le> ?b \<and> H (docs ! k)"
      then obtain k where k: "j \<le> k" "k \<le> ?b" "H (docs ! k)" by blast
      have "\<exists>k. j + 1 \<le> k \<and> k \<le> ?b \<and> H (docs' ! k)"
      proof (cases "H (docs ! j)")
        case hj: True
        have "H (docs' ! (j + 1))"
        proof (cases "H (docs ! (j + 1))")
          case True
          with hj atj show ?thesis by auto
        next
          case False
          with hj S1 have "shouldSwap L qb (docs ! j) (docs ! (j + 1))" by blast
          with len hj show ?thesis by (simp add: docs'_def)
        qed
        with jb show ?thesis by blast
      next
        case nj: False
        with k have kj: "j + 1 \<le> k" by (cases "k = j") auto
        show ?thesis
        proof (cases "H (docs ! (j + 1))")
          case True
          with nj S2 have "\<not> shouldSwap L qb (docs ! j) (docs ! (j + 1))" by blast
          then have "docs' = docs" by (simp add: docs'_def)
          with k kj show ?thesis by auto
        next
          case False
          with k kj have "k \<noteq> j" "k \<noteq> j + 1" by auto
          with other [of k] k kj show ?thesis by auto
        qed
      qed
      from IHb [OF this] show "H (sortDocuments_inner L qb n i j docs ! ?b)"
        unfolding r .
    qed
    have c: "\<forall>k. j \<le> k \<and> k \<le> ?b \<and> H (sortDocuments_inner L qb n i j docs ! k)
          \<longrightarrow> (\<exists>k'. j \<le> k' \<and> k' \<le> ?b \<and> H (docs ! k'))"
    proof (intro allI impI, elim conjE)
      fix k assume k: "j \<le> k" "k \<le> ?b" "H (sortDocuments_inner L qb n i j docs ! k)"
      have src: "\<exists>k'. j \<le> k' \<and> k' \<le> ?b \<and> H (docs ! k')" if "H (docs' ! m)" "j \<le> m" "m \<le> ?b" for m
      proof (cases "m = j \<or> m = j + 1")
        case True
        with that atj have "H (docs ! j) \<or> H (docs ! (j + 1))" by auto
        with jb show ?thesis by (metis le_add1 le_refl order_trans)
      next
        case False
        with other [of m] that show ?thesis by auto
      qed
      show "\<exists>k'. j \<le> k' \<and> k' \<le> ?b \<and> H (docs ! k')"
      proof (cases "k = j")
        case True
        with k(3) IHa [of j] have "H (docs' ! j)" unfolding r by simp
        from src [OF this] jb show ?thesis by simp
      next
        case False
        with k have "j + 1 \<le> k \<and> k \<le> ?b \<and> H (sortDocuments_inner L qb n i (j + 1) docs' ! k)"
          unfolding r by simp
        from IHc [OF this] obtain m where "j + 1 \<le> m" "m \<le> ?b" "H (docs' ! m)" by blast
        with src [of m] show ?thesis by simp
      qed
    qed
    from a b c show ?thesis by blast
  qed
qed

text \<open>After the passes, nothing heavy stands before something light.\<close>

lemma sortDocuments_outer_settled:
  "\<forall>a b. H a \<and> \<not> H b \<longrightarrow> shouldSwap L qb a b
   \<Longrightarrow> \<forall>a b. \<not> H a \<and> H b \<longrightarrow> \<not> shouldSwap L qb a b
   \<Longrightarrow> n = length docs
   \<Longrightarrow> \<forall>a b. a < b \<and> b < n \<and> n - i \<le> b \<and> H (docs ! a) \<longrightarrow> H (docs ! b)
   \<Longrightarrow> \<forall>a b. a < b \<and> b < n \<and> H (sortDocuments_outer L qb n i docs ! a)
         \<longrightarrow> H (sortDocuments_outer L qb n i docs ! b)"
proof (induction L qb n i docs rule: sortDocuments_outer.induct)
  case (1 L qb n i docs)
  note S1 = 1(2) and S2 = 1(3) and n = 1(4) and Q = 1(5)
  show ?case
  proof (cases "i + 1 < n")
    case False
    have r: "sortDocuments_outer L qb n i docs = docs"
      using False by (subst sortDocuments_outer.simps) simp
    show ?thesis
      unfolding r
    proof (intro allI impI, elim conjE)
      fix a b assume ab: "a < b" "b < n" "H (docs ! a)"
      with False have "n - i \<le> b" by simp
      with Q ab show "H (docs ! b)" by blast
    qed
  next
    case True
    define docs' where "docs' = sortDocuments_inner L qb n i 0 docs"
    let ?bd = "n - i - 1"
    have r: "sortDocuments_outer L qb n i docs = sortDocuments_outer L qb n (i + 1) docs'"
      using True by (subst sortDocuments_outer.simps) (simp add: docs'_def)
    have n': "n = length docs'" using n by (simp add: docs'_def)
    from True n have ln: "n \<le> length docs" and jn: "0 + i + 1 \<le> n" by simp_all
    from sortDocuments_inner_pass [OF S1 S2 ln jn, folded docs'_def]
    have Pa: "\<And>k. ?bd < k \<Longrightarrow> docs' ! k = docs ! k"
      and Pb: "(\<exists>k. k \<le> ?bd \<and> H (docs ! k)) \<Longrightarrow> H (docs' ! ?bd)"
      and Pc: "\<And>k. k \<le> ?bd \<Longrightarrow> H (docs' ! k) \<Longrightarrow> (\<exists>k'. k' \<le> ?bd \<and> H (docs ! k'))"
      by auto
    have Q': "\<forall>a b. a < b \<and> b < n \<and> n - (i + 1) \<le> b \<and> H (docs' ! a) \<longrightarrow> H (docs' ! b)"
    proof (intro allI impI, elim conjE)
      fix a b assume ab: "a < b" "b < n" "n - (i + 1) \<le> b" "H (docs' ! a)"
      show "H (docs' ! b)"
      proof (cases "b = ?bd")
        case True
        with ab have "a \<le> ?bd" by simp
        from Pc [OF this ab(4)] Pb True show ?thesis by simp
      next
        case False
        with ab have bg: "?bd < b" by simp
        then have nb: "n - i \<le> b" by simp
        have "\<exists>k. k < b \<and> H (docs ! k)"
        proof (cases "a \<le> ?bd")
          case True
          from Pc [OF this ab(4)] bg show ?thesis by (meson le_less_trans)
        next
          case False
          then have "docs' ! a = docs ! a" by (intro Pa) simp
          with ab show ?thesis by auto
        qed
        then obtain k where "k < b" "H (docs ! k)" by blast
        with Q ab(2) nb have "H (docs ! b)" by blast
        with Pa [OF bg] show ?thesis by simp
      qed
    qed
    from 1(1) [OF True S1 S2 n' [unfolded docs'_def] Q' [unfolded docs'_def], folded docs'_def]
    show ?thesis unfolding r .
  qed
qed

lemma sortDocuments_settled:
  assumes "\<forall>a b. H a \<and> \<not> H b \<longrightarrow> shouldSwap L qb a b"
    and "\<forall>a b. \<not> H a \<and> H b \<longrightarrow> \<not> shouldSwap L qb a b"
    and "sortBy qb \<noteq> []"
  shows "\<forall>a b. a < b \<and> b < length docs \<and> H (sortDocuments L qb docs ! a)
           \<longrightarrow> H (sortDocuments L qb docs ! b)"
proof -
  have "\<forall>a b. a < b \<and> b < length docs \<and> length docs - 0 \<le> b \<and> H (docs ! a) \<longrightarrow> H (docs ! b)"
    by auto
  from sortDocuments_outer_settled [OF assms(1,2) refl this] assms(3)
  show ?thesis by (simp add: sortDocuments_def)
qed

lemma compareValues_self [simp]: "compareValues L v v = 0"
  by (auto simp: compareValues_def Let_def f64_less_def split: option.splits)

lemma compareValues_zero_sym: "compareValues L a b = 0 \<Longrightarrow> compareValues L b a = 0"
  by (auto simp: compareValues_def Let_def split: option.splits if_splits)

lemma shouldSwap_self [simp]: "\<not> shouldSwap L qb d d"
  by (auto simp: shouldSwap_def Let_def split: option.splits)

lemma sortKeysEqual_no_swap:
  "sortKeysEqual L qb d1 d2 \<Longrightarrow> \<not> shouldSwap L qb d1 d2 \<and> \<not> shouldSwap L qb d2 d1"
  by (auto simp: sortKeysEqual_def shouldSwap_def Let_def dest: compareValues_zero_sym
      split: option.splits)

section \<open>Index consistency\<close>

lemma alias_steps_eval:
  "Documents (stored (run_steps lib0 (NewWorld ''items'') alias_steps)) ''a''
     = Some \<lparr>ID = ''a'', Data = [''qty'' \<mapsto> VInt 4], CreatedAt = 1, UpdatedAt = 2\<rparr>"
  "Indexes (stored (run_steps lib0 (NewWorld ''items'') alias_steps)) ''qty''
     = Some \<lparr>IndexField = ''qty'', Values = [''3'' \<mapsto> ''a'', ''4'' \<mapsto> ''a'']\<rparr>"
  by (simp_all add: alias_steps_def run_steps_def NewWorld_def NewCollection_def callerWrite_def
      CreateIndex_def Insert_def Update_def updateIndexes_def removeFromIndexes_def
      rangeDocuments_def List.map_filter_simps Let_def formatInt_def fun_eq_iff)

text \<open>
  C1, as stated for every sequence of \<^verbatim>\<open>Insert\<close>, \<^verbatim>\<open>Update\<close>, \<^verbatim>\<open>Delete\<close> and
  \<^verbatim>\<open>CreateIndex\<close> calls, fails when the caller writes an indexed key of a map that a
  stored document holds. In \<open>alias_steps\<close> the index on \<^verbatim>\<open>qty\<close> is created, a map with
  \<^verbatim>\<open>qty = 3\<close> is inserted as \<^verbatim>\<open>a\<close>, the caller sets \<^verbatim>\<open>qty\<close> to \<^verbatim>\<open>4\<close> in that map and
  passes it to \<^verbatim>\<open>Update\<close>. \<^verbatim>\<open>removeFromIndexes\<close> reads the old key from the document,
  which already shows \<^verbatim>\<open>4\<close>, so the entry under \<^verbatim>\<open>3\<close> stays: after the sequence the
  index maps \<^verbatim>\<open>3\<close> to \<^verbatim>\<open>a\<close>, and the value of \<^verbatim>\<open>qty\<close> in \<^verbatim>\<open>a\<close> stringifies to \<^verbatim>\<open>4\<close>.
\<close>

theorem index_consistency_shared_map_counterexample:
  "lookupEntry (stored (run_steps lib0 (NewWorld ''items'') alias_steps)) ''qty'' ''3''
     = Some ''a''
   \<and> Documents (stored (run_steps lib0 (NewWorld ''items'') alias_steps)) ''a''
       = Some \<lparr>ID = ''a'', Data = [''qty'' \<mapsto> VInt 4], CreatedAt = 1, UpdatedAt = 2\<rparr>
   \<and> sprintv lib0 (VInt 4) = ''4''"
  by (simp add: lookupEntry_def alias_steps_eval formatInt_def)

text \<open>
  C1, amended. After any finite sequence of \<^verbatim>\<open>Insert\<close>, \<^verbatim>\<open>Update\<close>, \<^verbatim>\<open>Delete\<close> and
  \<^verbatim>\<open>CreateIndex\<close> calls on a collection that starts empty (whatever errors some of
  the calls return, and whatever order \<^verbatim>\<open>CreateIndex\<close> visits the documents in),
  between which the caller writes a map that a stored document holds only at keys
  that have no index at that moment, every entry \<open>(k, did)\<close> of every index on a
  field \<open>f\<close> refers to a stored document whose value of \<open>f\<close> stringifies to \<open>k\<close>.
\<close>

theorem index_consistency:
  assumes "careful L (NewWorld name) steps"
  shows "\<forall>f index k did.
      Indexes (stored (run_steps L (NewWorld name) steps)) f = Some index
        \<and> Values index k = Some did \<longrightarrow>
      (\<exists>doc v. Documents (stored (run_steps L (NewWorld name) steps)) did = Some doc
         \<and> Data doc f = Some v \<and> sprintv L v = k)"
  using collection_ok_run_steps [OF collection_ok_NewWorld assms]
  unfolding collection_ok_def index_consistent_def by blast

lemma steps0_careful: "careful lib0 (NewWorld ''items'') steps0"
  by (simp add: steps0_def NewWorld_def NewCollection_def callerWrite_def
      CreateIndex_def Insert_def updateIndexes_def
      rangeDocuments_def List.map_filter_simps Let_def formatInt_def)

lemma steps0_eval:
  "Documents (stored (run_steps lib0 (NewWorld ''items'') steps0)) ''a''
     = Some \<lparr>ID = ''a'', Data = [''qty'' \<mapsto> VInt 5], CreatedAt = 1, UpdatedAt = 2\<rparr>"
  "Indexes (stored (run_steps lib0 (NewWorld ''items'') steps0)) ''qty''
     = Some \<lparr>IndexField = ''qty'', Values = [''5'' \<mapsto> ''a'']\<rparr>"
  by (simp_all add: steps0_def run_steps_def NewWorld_def NewCollection_def callerWrite_def
      CreateIndex_def Insert_def Update_def updateIndexes_def removeFromIndexes_def
      rangeDocuments_def List.map_filter_simps Let_def formatInt_def fun_eq_iff)

theorem index_consistency_witness:
  "careful lib0 (NewWorld ''items'') steps0
   \<and> lookupEntry (stored (run_steps lib0 (NewWorld ''items'') steps0)) ''qty'' ''5'' = Some ''a''
   \<and> (\<exists>doc v. Documents (stored (run_steps lib0 (NewWorld ''items'') steps0)) ''a'' = Some doc
         \<and> Data doc ''qty'' = Some v \<and> sprintv lib0 v = ''5'')"
proof -
  have e: "Indexes (stored (run_steps lib0 (NewWorld ''items'') steps0)) ''qty''
             = Some \<lparr>IndexField = ''qty'', Values = [''5'' \<mapsto> ''a'']\<rparr>
           \<and> Values \<lparr>IndexField = ''qty'', Values = [''5'' \<mapsto> ''a'']\<rparr> ''5'' = Some ''a''"
    by (simp add: steps0_eval)
  from index_consistency [OF steps0_careful] e
  have "\<exists>doc v. Documents (stored (run_steps lib0 (NewWorld ''items'') steps0)) ''a'' = Some doc
         \<and> Data doc ''qty'' = Some v \<and> sprintv lib0 v = ''5''"
    by blast
  with steps0_careful show ?thesis
    by (simp add: lookupEntry_def steps0_eval)
qed

section \<open>Update and the entries of other documents\<close>

lemma shared_key_eval:
  "Documents shared_key ''a'' = Some \<lparr>ID = ''a'', Data = [''qty'' \<mapsto> VInt 3], CreatedAt = 1, UpdatedAt = 1\<rparr>"
  "Documents shared_key ''b'' = Some \<lparr>ID = ''b'', Data = [''qty'' \<mapsto> VInt 3], CreatedAt = 2, UpdatedAt = 2\<rparr>"
  "Indexes shared_key ''qty'' = Some \<lparr>IndexField = ''qty'', Values = [''3'' \<mapsto> ''b'']\<rparr>"
  by (simp_all add: shared_key_def NewCollection_def CreateIndex_def
      Insert_def updateIndexes_def rangeDocuments_def List.map_filter_simps Let_def
      formatInt_def fun_eq_iff)

text \<open>
  C2 says that \<^verbatim>\<open>Update\<close> deletes the entry under the stringification of the old
  value only when that entry maps to the updated document, and leaves an entry that
  maps to another document unchanged. \<^verbatim>\<open>removeFromIndexes\<close> deletes the entry
  whatever it maps to. In \<open>shared_key\<close> the entry under \<^verbatim>\<open>3\<close> maps to \<^verbatim>\<open>b\<close>; updating
  \<^verbatim>\<open>a\<close> succeeds and removes it, although \<^verbatim>\<open>b\<close> is still stored with \<^verbatim>\<open>qty = 3\<close>.
\<close>

theorem Update_deletes_foreign_entry:
  "lookupEntry shared_key ''qty'' ''3'' = Some ''b''
   \<and> fst (Update lib0 shared_key ''a'' [''qty'' \<mapsto> VInt 4] 3) = None
   \<and> lookupEntry (snd (Update lib0 shared_key ''a'' [''qty'' \<mapsto> VInt 4] 3)) ''qty'' ''3'' = None
   \<and> Documents (snd (Update lib0 shared_key ''a'' [''qty'' \<mapsto> VInt 4] 3)) ''b''
        = Some \<lparr>ID = ''b'', Data = [''qty'' \<mapsto> VInt 3], CreatedAt = 2, UpdatedAt = 2\<rparr>"
  by (simp add: lookupEntry_def shared_key_eval Update_def removeFromIndexes_def
      updateIndexes_def Let_def formatInt_def)

section \<open>Import with overwrite and the indexes\<close>

lemma one_indexed_eval:
  "Documents one_indexed = [''a'' \<mapsto> \<lparr>ID = ''a'', Data = [''qty'' \<mapsto> VInt 1], CreatedAt = 1, UpdatedAt = 1\<rparr>]"
  "Indexes one_indexed = [''qty'' \<mapsto> \<lparr>IndexField = ''qty'', Values = [''1'' \<mapsto> ''a'']\<rparr>]"
  by (simp_all add: one_indexed_def NewCollection_def CreateIndex_def
      Insert_def updateIndexes_def rangeDocuments_def List.map_filter_simps Let_def
      formatInt_def fun_eq_iff)

lemma one_indexed_consistent: "index_consistent lib0 one_indexed"
proof -
  from collection_ok_NewCollection
  have "index_consistent lib0 (CreateIndex lib0 (NewCollection ''items'') ''qty'' [])"
    by (simp add: collection_ok_def index_consistent_CreateIndex)
  then show ?thesis
    by (simp add: one_indexed_def index_consistent_Insert)
qed

text \<open>
  C3 says that after the documents are removed for an import with overwrite, every
  index entry still points to a stored document. The code replaces the documents by
  an empty map and leaves the indexes as they are: in \<open>one_indexed\<close>, which satisfies
  the index invariant, the entry under \<^verbatim>\<open>1\<close> maps to \<^verbatim>\<open>a\<close> before and after, and
  afterwards no document \<^verbatim>\<open>a\<close> is stored.
\<close>

theorem ImportData_overwrite_leaves_dangling_entry:
  "lookupEntry one_indexed ''qty'' ''1'' = Some ''a''
   \<and> Documents one_indexed ''a''
       = Some \<lparr>ID = ''a'', Data = [''qty'' \<mapsto> VInt 1], CreatedAt = 1, UpdatedAt = 1\<rparr>
   \<and> lookupEntry (ImportData_clear overwrite_options one_indexed) ''qty'' ''1'' = Some ''a''
   \<and> Documents (ImportData_clear overwrite_options one_indexed) ''a'' = None"
  by (simp add: lookupEntry_def ImportData_clear_def overwrite_options_def one_indexed_eval)

section \<open>compareValues\<close>

lemma lexCompare_order:
  "lexCompare s t = (if s < t then - 1 else if t < s then 1 else 0)"
proof (induction s t rule: lexCompare.induct)
  case (4 x xs y ys)
  have "x = y" if "\<not> (of_char x :: nat) < of_char y" "\<not> (of_char y :: nat) < of_char x"
    using that by (metis less_char_def linorder_neqE)
  with 4 show ?case
    by (auto simp: less_char_def)
qed simp_all


text \<open>
  C4. \<^verbatim>\<open>compareValues\<close> stringifies both values; when both texts parse as numbers
  the result is their numeric comparison, one of \<open>-1\<close>, \<open>0\<close>, \<open>1\<close> (for two finite
  numbers the order of their values; \<open>0\<close> whenever one of them is a NaN), and
  otherwise the bytewise lexicographic comparison of the two texts. The string
  \<^verbatim>\<open>10\<close> and the integer \<^verbatim>\<open>10\<close> compare equal.
\<close>

theorem compareValues_is_Compare:
  "compareValues L a b = Compare L a b
   \<and> compareValues L a b \<in> {- 1, 0, 1}
   \<and> (\<forall>x y. ParseFloat (sprintv L a) = Some (Fin x) \<and> ParseFloat (sprintv L b) = Some (Fin y)
         \<longrightarrow> compareValues L a b = (if x < y then - 1 else if y < x then 1 else 0))
   \<and> (ParseFloat (sprintv L a) = None \<or> ParseFloat (sprintv L b) = None
         \<longrightarrow> compareValues L a b =
              (if sprintv L a < sprintv L b then - 1
               else if sprintv L b < sprintv L a then 1 else 0))
   \<and> compareValues L (VStr ''10'') (VInt 10) = 0"
proof -
  have 1: "compareValues L a b = Compare L a b"
    by (auto simp: compareValues_def Compare_def numericCompare_def lexCompare_order Let_def
        split: option.splits)
  have 2: "compareValues L a b \<in> {- 1, 0, 1}"
    by (auto simp: compareValues_def Let_def split: option.splits)
  have 3: "\<forall>x y. ParseFloat (sprintv L a) = Some (Fin x) \<and> ParseFloat (sprintv L b) = Some (Fin y)
         \<longrightarrow> compareValues L a b = (if x < y then - 1 else if y < x then 1 else 0)"
    by (auto simp: compareValues_def Let_def f64_less_def)
  have 4: "ParseFloat (sprintv L a) = None \<or> ParseFloat (sprintv L b) = None
         \<longrightarrow> compareValues L a b =
              (if sprintv L a < sprintv L b then - 1
               else if sprintv L b < sprintv L a then 1 else 0)"
    by (auto simp: compareValues_def Let_def split: option.splits)
  have 5: "compareValues L (VStr ''10'') (VInt 10) = 0"
    by (simp add: compareValues_def Let_def formatInt_def ParseFloat_eval f64_less_def)
  from 1 2 3 4 5 show ?thesis by blast
qed

theorem compareValues_is_Compare_witness:
  "compareValues lib0 (VStr ''9'') (VInt 10) = - 1
   \<and> compareValues lib0 (VStr ''abc'') (VInt 12) = 1"
proof -
  have a: "ParseFloat (sprintv lib0 (VStr ''9'')) = Some (Fin 9)
           \<and> ParseFloat (sprintv lib0 (VInt 10)) = Some (Fin 10)"
    by (simp add: formatInt_def ParseFloat_eval)
  have b: "ParseFloat (sprintv lib0 (VStr ''abc'')) = None"
    by (simp add: ParseFloat_eval)
  have c: "\<not> (''abc'' :: string) < ''12''" "(''12'' :: string) < ''abc''"
    by simp_all
  from compareValues_is_Compare [of lib0 "VStr ''9''" "VInt 10"] a
  have "compareValues lib0 (VStr ''9'') (VInt 10) = - 1" by simp
  moreover from compareValues_is_Compare [of lib0 "VStr ''abc''" "VInt 12"] b c
  have "compareValues lib0 (VStr ''abc'') (VInt 12) = 1"
    by (simp add: formatInt_def)
  ultimately show ?thesis by simp
qed

section \<open>Find with an index against the scan\<close>

lemma stale_index_eval:
  "Documents stale_index = [''a'' \<mapsto> \<lparr>ID = ''a'', Data = [''qty'' \<mapsto> VInt 2], CreatedAt = 2, UpdatedAt = 2\<rparr>]"
  "Indexes stale_index = [''qty'' \<mapsto> \<lparr>IndexField = ''qty'', Values = [''1'' \<mapsto> ''a'', ''2'' \<mapsto> ''a'']\<rparr>]"
  by (simp_all add: stale_index_def ImportData_clear_def overwrite_options_def one_indexed_eval
      Insert_def updateIndexes_def Let_def formatInt_def fun_eq_iff)

lemma written_after_insert_eval:
  "Documents written_after_insert
     = [''a'' \<mapsto> \<lparr>ID = ''a'', Data = [''qty'' \<mapsto> VInt 4], CreatedAt = 1, UpdatedAt = 1\<rparr>]"
  "Indexes written_after_insert
     = [''qty'' \<mapsto> \<lparr>IndexField = ''qty'', Values = [''3'' \<mapsto> ''a'']\<rparr>]"
  by (simp_all add: written_after_insert_def run_steps_def NewWorld_def NewCollection_def
      callerWrite_def CreateIndex_def Insert_def updateIndexes_def
      rangeDocuments_def List.map_filter_simps Let_def formatInt_def fun_eq_iff)

text \<open>
  C5, as stated for every collection, fails where an index holds a stale entry. In
  \<open>written_after_insert\<close> a map with \<^verbatim>\<open>qty = 3\<close> is inserted as \<^verbatim>\<open>a\<close> and the caller
  then sets \<^verbatim>\<open>qty\<close> to \<^verbatim>\<open>4\<close> in that map, which the document holds: the index on
  \<^verbatim>\<open>qty\<close> still maps \<^verbatim>\<open>3\<close> to \<^verbatim>\<open>a\<close>. In \<open>stale_index\<close> (an import with overwrite, then
  an insert under the old id) the index on \<^verbatim>\<open>qty\<close> still maps \<^verbatim>\<open>1\<close> to \<^verbatim>\<open>a\<close>, whose
  value is now \<^verbatim>\<open>2\<close>. In both, \<^verbatim>\<open>Find\<close> returns \<^verbatim>\<open>a\<close> for the old value; the scan
  returns nothing.
\<close>

theorem Find_stale_index_counterexample:
  "\<not> set (map ID (Find lib0 written_after_insert ''qty'' (VInt 3) [''a'']))
       \<subseteq> set (map ID (fullScan lib0 written_after_insert ''qty'' (VInt 3) [''a'']))
   \<and> \<not> set (map ID (Find lib0 stale_index ''qty'' (VInt 1) [''a'']))
       \<subseteq> set (map ID (fullScan lib0 stale_index ''qty'' (VInt 1) [''a'']))"
  by (simp add: Find_def fullScan_def rangeDocuments_def List.map_filter_simps
      stale_index_eval written_after_insert_eval formatInt_def)

text \<open>
  C5, amended. For every collection, every field with an index and every value:
  \<^verbatim>\<open>Find\<close> returns at most one document; and when the index entries of the collection
  are consistent (each refers to a stored document whose value of the indexed field
  stringifies to the key) and the scan visits every stored document once, the ids
  that \<^verbatim>\<open>Find\<close> returns are among those the scan returns.
\<close>

theorem Find_indexed_within_scan:
  assumes "Indexes c f = Some index"
  shows "length (Find L c f v order) \<le> 1
         \<and> (index_consistent L c \<and> iterates order (Documents c) \<longrightarrow>
              set (map ID (Find L c f v order)) \<subseteq> set (map ID (fullScan L c f v order)))"
proof (intro conjI impI)
  show "length (Find L c f v order) \<le> 1"
    using assms by (simp add: Find_def split: option.splits)
next
  assume h: "index_consistent L c \<and> iterates order (Documents c)"
  show "set (map ID (Find L c f v order)) \<subseteq> set (map ID (fullScan L c f v order))"
  proof (cases "Values index (sprintv L v)")
    case None
    with assms show ?thesis by (simp add: Find_def)
  next
    case (Some docID)
    with h assms obtain doc dv where
      d: "Documents c docID = Some doc" "Data doc f = Some dv" "sprintv L dv = sprintv L v"
      unfolding index_consistent_def by blast
    from d(1) h have "docID \<in> set order"
      by (auto simp: iterates_def)
    with d(1) have "doc \<in> set (rangeDocuments c order)"
      by (force simp: rangeDocuments_def List.map_filter_def)
    with d(2,3) have "doc \<in> set (fullScan L c f v order)"
      by (simp add: fullScan_def)
    moreover have "Find L c f v order = [doc]"
      using assms Some d(1) by (simp add: Find_def)
    ultimately show ?thesis by simp
  qed
qed

theorem Find_indexed_within_scan_witness:
  "length (Find lib0 shared_key ''qty'' (VInt 3) [''a'', ''b'']) \<le> 1
   \<and> set (map ID (Find lib0 shared_key ''qty'' (VInt 3) [''a'', ''b'']))
       \<subseteq> set (map ID (fullScan lib0 shared_key ''qty'' (VInt 3) [''a'', ''b'']))
   \<and> Find lib0 shared_key ''qty'' (VInt 3) [''a'', ''b'']
       = [\<lparr>ID = ''b'', Data = [''qty'' \<mapsto> VInt 3], CreatedAt = 2, UpdatedAt = 2\<rparr>]
   \<and> length (Find lib0 stale_index ''qty'' (VInt 1) [''a'']) \<le> 1"
proof -
  have "index_consistent lib0 (CreateIndex lib0 (NewCollection ''items'') ''qty'' [])"
    using collection_ok_NewCollection
    by (simp add: collection_ok_def index_consistent_CreateIndex)
  then have ok: "index_consistent lib0 shared_key"
    by (simp add: shared_key_def index_consistent_Insert)
  have it: "iterates [''a'', ''b''] (Documents shared_key)"
    by (auto simp: iterates_def dom_def shared_key_def NewCollection_def
        CreateIndex_def Insert_def updateIndexes_def Let_def split: if_splits)
  have ix: "Indexes shared_key ''qty'' = Some \<lparr>IndexField = ''qty'', Values = [''3'' \<mapsto> ''b'']\<rparr>"
    by (rule shared_key_eval)
  have sx: "Indexes stale_index ''qty''
              = Some \<lparr>IndexField = ''qty'', Values = [''1'' \<mapsto> ''a'', ''2'' \<mapsto> ''a'']\<rparr>"
    by (simp add: stale_index_eval)
  from Find_indexed_within_scan [OF ix, of lib0 "VInt 3" "[''a'', ''b'']"] ok it
    Find_indexed_within_scan [OF sx, of lib0 "VInt 1" "[''a'']"]
  show ?thesis
    by (simp add: Find_def shared_key_eval formatInt_def)
qed

section \<open>Execute\<close>

lemma sortDocuments_Nil [simp]: "sortDocuments L qb [] = []"
  using length_sortDocuments [of L qb "[]"] by (simp del: length_sortDocuments)

lemma matchesFilters_iff:
  "matchesFilters L qb d = (\<forall>f \<in> set (filters qb). matchesFilter L d f)"
  by (simp add: matchesFilters_def list_all_iff)



















section \<open>Stability of the sort and the place of absent keys\<close>

text \<open>
  C7. The sort of a query builder permutes its input; any two documents whose sort
  keys compare equal, or which both lack the sort field, keep their relative input
  order (the occurrences of the two documents form the same sequence before and
  after); and when a sort is performed (the sort field is not empty), the documents
  that lack the field stand after all that have it when the order is ascending, and
  before all of them when it is descending.
\<close>

theorem sortDocuments_stable:
  "mset (sortDocuments L qb docs) = mset docs
   \<and> (\<forall>d1 d2. sortKeysEqual L qb d1 d2 \<longrightarrow>
        filter (\<lambda>d. d = d1 \<or> d = d2) (sortDocuments L qb docs)
          = filter (\<lambda>d. d = d1 \<or> d = d2) docs)
   \<and> (sortBy qb \<noteq> [] \<and> sortOrder qb = 1 \<longrightarrow>
        (\<forall>a b. a < b \<and> b < length docs \<and> Data (sortDocuments L qb docs ! a) (sortBy qb) = None
           \<longrightarrow> Data (sortDocuments L qb docs ! b) (sortBy qb) = None))
   \<and> (sortBy qb \<noteq> [] \<and> sortOrder qb = - 1 \<longrightarrow>
        (\<forall>a b. a < b \<and> b < length docs \<and> Data (sortDocuments L qb docs ! a) (sortBy qb) \<noteq> None
           \<longrightarrow> Data (sortDocuments L qb docs ! b) (sortBy qb) \<noteq> None))"
proof (intro conjI allI impI)
  show "mset (sortDocuments L qb docs) = mset docs"
    by (simp add: sortDocuments_def mset_sortDocuments_outer)
next
  fix d1 d2 assume "sortKeysEqual L qb d1 d2"
  from sortKeysEqual_no_swap [OF this]
  have "\<forall>a b. (a = d1 \<or> a = d2) \<and> (b = d1 \<or> b = d2) \<longrightarrow> \<not> shouldSwap L qb a b"
    by auto
  from filter_sortDocuments_outer [OF this, where n = "length docs" and docs = docs and i = 0]
  show "filter (\<lambda>d. d = d1 \<or> d = d2) (sortDocuments L qb docs)
          = filter (\<lambda>d. d = d1 \<or> d = d2) docs"
    by (simp add: sortDocuments_def)
next
  fix a b
  assume asc: "sortBy qb \<noteq> [] \<and> sortOrder qb = 1"
    and ab: "a < b \<and> b < length docs \<and> Data (sortDocuments L qb docs ! a) (sortBy qb) = None"
  let ?H = "\<lambda>d. Data d (sortBy qb) = None"
  have "\<forall>x y. ?H x \<and> \<not> ?H y \<longrightarrow> shouldSwap L qb x y"
    and "\<forall>x y. \<not> ?H x \<and> ?H y \<longrightarrow> \<not> shouldSwap L qb x y"
    using asc by (auto simp: shouldSwap_def)
  from sortDocuments_settled [of ?H, OF this] asc ab
  show "Data (sortDocuments L qb docs ! b) (sortBy qb) = None" by blast
next
  fix a b
  assume desc: "sortBy qb \<noteq> [] \<and> sortOrder qb = - 1"
    and ab: "a < b \<and> b < length docs \<and> Data (sortDocuments L qb docs ! a) (sortBy qb) \<noteq> None"
  let ?H = "\<lambda>d. Data d (sortBy qb) \<noteq> None"
  have "\<forall>x y. ?H x \<and> \<not> ?H y \<longrightarrow> shouldSwap L qb x y"
    and "\<forall>x y. \<not> ?H x \<and> ?H y \<longrightarrow> \<not> shouldSwap L qb x y"
    using desc by (auto simp: shouldSwap_def)
  from sortDocuments_settled [of ?H, OF this] desc ab
  show "Data (sortDocuments L qb docs ! b) (sortBy qb) \<noteq> None" by blast
qed


lemma sortDocuments_sort_docs:
  "sortDocuments lib0 by_n_ascending [absent1, one_int, one_str, absent2]
     = [one_int, one_str, absent1, absent2]"
  "sortDocuments lib0 by_n_descending [absent1, one_int, one_str, absent2]
     = [absent1, absent2, one_int, one_str]"
  by (simp_all add: sortDocuments_def sortDocuments_outer.simps sortDocuments_inner.simps
      shouldSwap_def by_n_ascending_def by_n_descending_def Sort_def NewQuery_def
      absent1_def absent2_def one_int_def one_str_def compareValues_def Let_def formatInt_def
      ParseFloat_eval f64_less_def)

theorem sortDocuments_stable_witness:
  "filter (\<lambda>d. d = one_int \<or> d = one_str)
      (sortDocuments lib0 by_n_ascending [absent1, one_int, one_str, absent2])
     = [one_int, one_str]
   \<and> Data (sortDocuments lib0 by_n_ascending [absent1, one_int, one_str, absent2] ! 3) ''n'' = None
   \<and> Data (sortDocuments lib0 by_n_descending [absent1, one_int, one_str, absent2] ! 3) ''n''
       \<noteq> None"
proof -
  have k: "sortKeysEqual lib0 by_n_ascending one_int one_str"
    by (simp add: sortKeysEqual_def by_n_ascending_def Sort_def one_int_def one_str_def
        compareValues_def Let_def formatInt_def ParseFloat_eval f64_less_def)
  have ne: "one_int \<noteq> one_str" "absent1 \<noteq> one_int" "absent1 \<noteq> one_str"
    "absent2 \<noteq> one_int" "absent2 \<noteq> one_str"
    by (simp_all add: one_int_def one_str_def absent1_def absent2_def)
  have a: "sortBy by_n_ascending \<noteq> [] \<and> sortOrder by_n_ascending = 1"
    "sortBy by_n_ascending = ''n''"
    and d: "sortBy by_n_descending \<noteq> [] \<and> sortOrder by_n_descending = - 1"
    "sortBy by_n_descending = ''n''"
    by (simp_all add: by_n_ascending_def by_n_descending_def Sort_def NewQuery_def)
  have pa: "(2::nat) < 3 \<and> 3 < length [absent1, one_int, one_str, absent2]
      \<and> Data (sortDocuments lib0 by_n_ascending [absent1, one_int, one_str, absent2] ! 2)
           (sortBy by_n_ascending) = None"
    unfolding sortDocuments_sort_docs by (simp add: a absent1_def)
  have pd: "(2::nat) < 3 \<and> 3 < length [absent1, one_int, one_str, absent2]
      \<and> Data (sortDocuments lib0 by_n_descending [absent1, one_int, one_str, absent2] ! 2)
           (sortBy by_n_descending) \<noteq> None"
    unfolding sortDocuments_sort_docs by (simp add: d one_int_def)
  note T = sortDocuments_stable [of lib0 by_n_ascending "[absent1, one_int, one_str, absent2]"]
    and U = sortDocuments_stable [of lib0 by_n_descending "[absent1, one_int, one_str, absent2]"]
  from T k have "filter (\<lambda>d. d = one_int \<or> d = one_str)
      (sortDocuments lib0 by_n_ascending [absent1, one_int, one_str, absent2])
     = filter (\<lambda>d. d = one_int \<or> d = one_str) [absent1, one_int, one_str, absent2]"
    by blast
  moreover from T a(1) pa
  have "Data (sortDocuments lib0 by_n_ascending [absent1, one_int, one_str, absent2] ! 3)
          (sortBy by_n_ascending) = None"
    by blast
  moreover from U d(1) pd
  have "Data (sortDocuments lib0 by_n_descending [absent1, one_int, one_str, absent2] ! 3)
          (sortBy by_n_descending) \<noteq> None"
    by blast
  ultimately show ?thesis
    using ne by (simp add: a d)
qed

section \<open>The sums of a group stage\<close>

lemma groupItems_snoc:
  "groupItems L s (data @ [it]) =
     (groupItems L s data)(getGroupKey L s it \<mapsto>
        (case groupItems L s data (getGroupKey L s it) of None \<Rightarrow> [] | Some g \<Rightarrow> g) @ [it])"
  by (simp add: groupItems_def)

lemma filter_absent_key: "a \<notin> key ` set xs \<Longrightarrow> filter (\<lambda>x. key x = a) xs = []"
  by (induction xs) auto

lemma groupItems_eq:
  "groupItems L s data k =
     (if k \<in> getGroupKey L s ` set data
      then Some (filter (\<lambda>it. getGroupKey L s it = k) data) else None)"
proof (induction data arbitrary: k rule: rev_induct)
  case Nil
  then show ?case by (simp add: groupItems_def)
next
  case (snoc it data)
  show ?case
    unfolding groupItems_snoc
    by (auto simp: snoc filter_absent_key split: option.splits if_splits)
qed

lemma dom_groupItems: "dom (groupItems L s data) = getGroupKey L s ` set data"
  by (auto simp: groupItems_eq dom_def)

lemma groupFields_other:
  "groupFields L gd flds res = Inr r \<Longrightarrow> fname \<notin> fst ` set flds \<Longrightarrow> r fname = res fname"
proof (induction flds arbitrary: res)
  case Nil
  then show ?case by simp
next
  case (Cons p flds)
  obtain n af where p: "p = (n, af)" by (cases p)
  from Cons.prems(1) obtain v where
    v: "calculateAggregation L gd af = Inr v"
    and rest: "groupFields L gd flds (res(n \<mapsto> v)) = Inr r"
    by (auto simp: p split: sum.splits)
  from Cons.IH [OF rest] Cons.prems(2) show ?case by (simp add: p)
qed

lemma groupFields_sum:
  assumes "groupFields L gd flds res = Inr r" "distinct (map fst flds)"
    and "(fname, af) \<in> set flds" "Operation af = ''sum''"
  shows "r fname = Some (VFloat (sumLoop L (AggField af) gd))"
  using assms
proof (induction flds arbitrary: res)
  case Nil
  then show ?case by simp
next
  case (Cons p flds)
  obtain n af' where p: "p = (n, af')" by (cases p)
  from Cons.prems(1) obtain v where
    v: "calculateAggregation L gd af' = Inr v"
    and rest: "groupFields L gd flds (res(n \<mapsto> v)) = Inr r"
    by (auto simp: p split: sum.splits)
  show ?case
  proof (cases "(fname, af) \<in> set flds")
    case True
    from Cons.IH [OF rest _ True Cons.prems(4)] Cons.prems(2) show ?thesis by simp
  next
    case False
    with Cons.prems(3) have e: "n = fname" "af' = af" by (simp_all add: p)
    from Cons.prems(2) have "fname \<notin> fst ` set flds" by (simp add: p e)
    from groupFields_other [OF rest this] have "r fname = Some v" by (simp add: e)
    moreover from v Cons.prems(4) have "v = VFloat (sumLoop L (AggField af) gd)"
      by (simp add: calculateAggregation_def e)
    ultimately show ?thesis by simp
  qed
qed

lemma processGroups_sum:
  assumes "processGroups L s groups korder = Inr out" "distinct (map fst (Fields s))"
    and "(fname, af) \<in> set (Fields s)" "Operation af = ''sum''"
    and "set korder \<subseteq> dom groups"
  shows "map (\<lambda>g. g fname) out
          = map (\<lambda>k. Some (VFloat (sumLoop L (AggField af) (the (groups k))))) korder"
  using assms(1,5)
proof (induction korder arbitrary: out)
  case Nil
  then show ?case by simp
next
  case (Cons k korder)
  from Cons.prems(2) obtain gd where gd: "groups k = Some gd" by auto
  from Cons.prems(1) gd obtain r out' where
    r: "groupFields L gd (Fields s) [''_id'' \<mapsto> VStr k] = Inr r"
    and o: "processGroups L s groups korder = Inr out'" and out: "out = r # out'"
    by (auto split: sum.splits)
  from Cons.IH [OF o] Cons.prems(2)
  have "map (\<lambda>g. g fname) out'
          = map (\<lambda>k. Some (VFloat (sumLoop L (AggField af) (the (groups k))))) korder"
    by simp
  with groupFields_sum [OF r assms(2,3,4)] gd show ?case by (simp add: out)
qed

lemma sumLoop_numbersOf:
  "sumLoop L f data = foldl f64_add (Fin 0) (numbersOf L f data)"
proof -
  have "foldl (\<lambda>sum it. case numericField L f it of Some num \<Rightarrow> f64_add sum num | None \<Rightarrow> sum) a data
      = foldl f64_add a (List.map_filter (numericField L f) data)" for a
    by (induction data arbitrary: a) (auto simp: List.map_filter_simps split: option.splits)
  then show ?thesis by (simp add: sumLoop_def numbersOf_def)
qed

lemma foldl_f64_add_exact:
  assumes "\<forall>x \<in> set fs. \<exists>n::int. x = Fin (of_int n)"
    and "\<bar>of_int a\<bar> + sum_list (map (\<lambda>x. \<bar>finiteValue x\<bar>) fs) \<le> (2::rat) ^ 53"
  shows "foldl f64_add (Fin (of_int a)) fs = Fin (of_int a + sum_list (map finiteValue fs))"
  using assms
proof (induction fs arbitrary: a)
  case Nil
  then show ?case by simp
next
  case (Cons x fs)
  from Cons.prems(1) obtain n :: int where x: "x = Fin (of_int n)" by auto
  have fv: "finiteValue x = of_int n" by (simp add: x finiteValue_def)
  have nonneg: "0 \<le> sum_list (map (\<lambda>x. \<bar>finiteValue x\<bar>) fs)"
    by (rule sum_list_nonneg) auto
  from Cons.prems(2) have b: "\<bar>of_int a\<bar> + \<bar>of_int n :: rat\<bar> + sum_list (map (\<lambda>x. \<bar>finiteValue x\<bar>) fs) \<le> 2 ^ 53"
    by (simp add: fv)
  with nonneg have "\<bar>of_int a\<bar> + \<bar>of_int n :: rat\<bar> \<le> 2 ^ 53" by linarith
  then have "\<bar>of_int (a + n) :: rat\<bar> \<le> 2 ^ 53"
    using abs_triangle_ineq [of "of_int a :: rat" "of_int n"] by simp
  then have "(of_int \<bar>a + n\<bar> :: rat) \<le> of_int (2 ^ 53)" by simp
  then have an: "\<bar>a + n\<bar> \<le> 2 ^ 53" by (simp only: of_int_le_iff)
  have step: "f64_add (Fin (of_int a)) x = Fin (of_int (a + n))"
    unfolding x by (rule f64_add_of_int [OF an])
  have b': "\<bar>of_int (a + n) :: rat\<bar> + sum_list (map (\<lambda>x. \<bar>finiteValue x\<bar>) fs) \<le> 2 ^ 53"
    using b abs_triangle_ineq [of "of_int a :: rat" "of_int n"] by simp
  from Cons.IH [of "a + n"] Cons.prems(1) b'
  have "foldl f64_add (Fin (of_int (a + n))) fs = Fin (of_int (a + n) + sum_list (map finiteValue fs))"
    by simp
  then show ?case by (simp add: step fv)
qed

lemma sumLoop_exact:
  assumes "\<forall>x \<in> set (numbersOf L f data). \<exists>n::int. x = Fin (of_int n)"
    and "sum_list (map (\<lambda>x. \<bar>finiteValue x\<bar>) (numbersOf L f data)) \<le> 2 ^ 53"
  shows "sumLoop L f data = Fin (sum_list (map finiteValue (numbersOf L f data)))"
  using foldl_f64_add_exact [of "numbersOf L f data" 0] assms
  by (simp add: sumLoop_numbersOf)

lemma numbersOf_filter_subset:
  "set (numbersOf L f (filter P data)) \<subseteq> set (numbersOf L f data)"
  by (auto simp: numbersOf_def List.map_filter_def)

lemma numbersOf_sum:
  "sum_list (map h (numbersOf L f data))
     = sum_list (map (\<lambda>it. case numericField L f it of Some x \<Rightarrow> h x | None \<Rightarrow> (0::rat)) data)"
  by (induction data) (auto simp: numbersOf_def List.map_filter_simps split: option.splits)

lemma sum_list_filter_le:
  "(\<And>x. 0 \<le> h x) \<Longrightarrow> sum_list (map h (filter P xs)) \<le> (sum_list (map h xs) :: rat)"
  by (induction xs) (auto intro: add_increasing)

lemma sum_list_absent_key:
  "a \<notin> set ks \<Longrightarrow> sum_list (map (\<lambda>k. if a = k then c else (0::rat)) ks) = 0"
  by (induction ks) auto

lemma sum_list_single_key:
  "distinct ks \<Longrightarrow> a \<in> set ks \<Longrightarrow> sum_list (map (\<lambda>k. if a = k then c else (0::rat)) ks) = c"
  by (induction ks) (auto simp: sum_list_absent_key)

lemma sum_list_partition:
  assumes "distinct ks" "key ` set xs \<subseteq> set ks"
  shows "sum_list (map (\<lambda>k. sum_list (map h (filter (\<lambda>x. key x = k) xs))) ks)
           = (sum_list (map h xs) :: rat)"
  using assms(2)
proof (induction xs)
  case Nil
  then show ?case by simp
next
  case (Cons x xs)
  have "sum_list (map (\<lambda>k. sum_list (map h (filter (\<lambda>x. key x = k) (x # xs)))) ks)
      = sum_list (map (\<lambda>k. (if key x = k then h x else 0)
                             + sum_list (map h (filter (\<lambda>x. key x = k) xs))) ks)"
    by (intro arg_cong [where f = sum_list] map_cong) auto
  also have "\<dots> = sum_list (map (\<lambda>k. if key x = k then h x else 0) ks)
                  + sum_list (map (\<lambda>k. sum_list (map h (filter (\<lambda>x. key x = k) xs))) ks)"
    by (simp add: sum_list_addf)
  also have "\<dots> = h x + sum_list (map h xs)"
    using Cons sum_list_single_key [OF assms(1), of "key x" "h x"] by simp
  finally show ?case by simp
qed


text \<open>Evaluation of the stage on the two concrete inputs.\<close>

lemma sum_stage_sel:
  "GroupID sum_stage = VStr ''g''"
  "Fields sum_stage = [(''total'', \<lparr>Operation = ''sum'', AggField = ''f''\<rparr>)]"
  by (simp_all add: sum_stage_def)

lemma groupItems_rounding_items:
  "groupItems lib0 sum_stage rounding_items ''A''
     = Some [ [''g'' \<mapsto> VStr ''A'', ''f'' \<mapsto> VInt 1],
             [''g'' \<mapsto> VStr ''A'', ''f'' \<mapsto> VInt 9007199254740992]]"
  "groupItems lib0 sum_stage rounding_items ''B''
     = Some [ [''g'' \<mapsto> VStr ''B'', ''f'' \<mapsto> VInt (- 9007199254740992)],
             [''g'' \<mapsto> VStr ''B'', ''f'' \<mapsto> VInt 1]]"
  "dom (groupItems lib0 sum_stage rounding_items) = {''A'', ''B''}"
  by (auto simp: groupItems_eq dom_groupItems getGroupKey_def sum_stage_def rounding_items_def)

lemma groupItems_small_items:
  "groupItems lib0 sum_stage small_items ''A''
     = Some [ [''g'' \<mapsto> VStr ''A'', ''f'' \<mapsto> VInt 9],
             [''g'' \<mapsto> VStr ''A'', ''f'' \<mapsto> VStr ''abc'']]"
  "groupItems lib0 sum_stage small_items ''B''
     = Some [ [''g'' \<mapsto> VStr ''B'', ''f'' \<mapsto> VInt 1],
             [''g'' \<mapsto> VStr ''B'', ''f'' \<mapsto> VStr ''1e1'']]"
  "dom (groupItems lib0 sum_stage small_items) = {''A'', ''B''}"
  by (auto simp: groupItems_eq dom_groupItems getGroupKey_def sum_stage_def small_items_def)

lemma numbersOf_rounding_items:
  "numbersOf lib0 ''f'' rounding_items
     = [Fin (- 9007199254740992), Fin 1, Fin 9007199254740992, Fin 1]"
  by (simp add: numbersOf_def List.map_filter_simps numericField_def rounding_items_def
      formatInt_def ParseFloat_eval)

lemma numbersOf_small_items:
  "numbersOf lib0 ''f'' small_items = [Fin 1, Fin 9, Fin 10]"
  by (simp add: numbersOf_def List.map_filter_simps numericField_def small_items_def
      formatInt_def ParseFloat_eval)

lemmas aggregation_eval_defs =
  Process_def sum_stage_sel calculateAggregation_def sumLoop_def numericField_def
  formatInt_def ParseFloat_eval roundFloat64_numeral roundFloat64_tie f64_add_eval

lemma Process_rounding_items:
  "Process lib0 sum_stage rounding_items [''A'', ''B''] = Inr rounding_groups"
  by (simp add: aggregation_eval_defs groupItems_rounding_items rounding_groups_def)

lemma Process_small_items:
  "Process lib0 sum_stage small_items [''A'', ''B''] = Inr small_groups"
  by (simp add: aggregation_eval_defs groupItems_small_items small_groups_def)

text \<open>
  C8, as stated, fails where a \<^verbatim>\<open>float64\<close> addition rounds. For \<open>rounding_items\<close>
  the group \<^verbatim>\<open>A\<close> adds \<open>1\<close> and \<open>2 ^ 53\<close> to \<open>2 ^ 53\<close>, the group \<^verbatim>\<open>B\<close> adds
  \<open>- 2 ^ 53\<close> and \<open>1\<close> to \<open>1 - 2 ^ 53\<close>: the group sums add up to \<open>1\<close>. The four
  values add up to \<open>2\<close>, exactly and also when they are added as \<^verbatim>\<open>float64\<close> in
  input order.
\<close>

theorem group_sums_rounding_counterexample:
  "Process lib0 sum_stage rounding_items [''A'', ''B''] = Inr rounding_groups
   \<and> iterates [''A'', ''B''] (groupItems lib0 sum_stage rounding_items)
   \<and> sum_list (groupSumValues ''total'' rounding_groups)
       \<noteq> sum_list (map finiteValue (numbersOf lib0 ''f'' rounding_items))
   \<and> sum_list (groupSumValues ''total'' rounding_groups)
       \<noteq> finiteValue (sumLoop lib0 ''f'' rounding_items)"
proof -
  have "sumLoop lib0 ''f'' rounding_items = Fin 2"
    by (simp add: sumLoop_numbersOf numbersOf_rounding_items roundFloat64_numeral
        roundFloat64_tie f64_add_eval)
  moreover have "sum_list (groupSumValues ''total'' rounding_groups) = 1"
    by (simp add: groupSumValues_def rounding_groups_def finiteValue_def)
  moreover have "sum_list (map finiteValue (numbersOf lib0 ''f'' rounding_items)) = 2"
    by (simp add: numbersOf_rounding_items finiteValue_def)
  ultimately show ?thesis
    by (simp add: Process_rounding_items iterates_def groupItems_rounding_items finiteValue_def)
qed

text \<open>
  C8, amended. For every input sequence of items and every group stage with a
  \<^verbatim>\<open>sum\<close> on a field \<open>f\<close> that returns without an error: when every value of \<open>f\<close>
  that parses as a number is an integer and the magnitudes of these integers add up to
  at most \<open>2 ^ 53\<close>, the sum over the output groups of the group's sum equals the sum
  of all values of \<open>f\<close> that parse as numbers. (Each group's sum is the \<^verbatim>\<open>float64\<close>
  sum, from \<open>0\<close> in input order, of the parsable values of the items with the group's
  key; under the hypothesis no addition rounds.)
\<close>

theorem group_sums_exact:
  assumes "Process L s data korder = Inr out"
    and "iterates korder (groupItems L s data)"
    and "distinct (map fst (Fields s))"
    and "(fname, \<lparr>Operation = ''sum'', AggField = f\<rparr>) \<in> set (Fields s)"
    and "\<forall>x \<in> set (numbersOf L f data). \<exists>n::int. x = Fin (of_int n)"
    and "sum_list (map (\<lambda>x. \<bar>finiteValue x\<bar>) (numbersOf L f data)) \<le> 2 ^ 53"
  shows "sum_list (groupSumValues fname out) = sum_list (map finiteValue (numbersOf L f data))"
proof -
  let ?key = "getGroupKey L s"
  let ?grp = "\<lambda>k. filter (\<lambda>it. ?key it = k) data"
  let ?g = "\<lambda>it. case numericField L f it of Some x \<Rightarrow> finiteValue x | None \<Rightarrow> (0::rat)"
  from assms(2) have dk: "distinct korder" and sk: "set korder = ?key ` set data"
    by (simp_all add: iterates_def dom_groupItems)
  have grp: "the (groupItems L s data k) = ?grp k" if "k \<in> set korder" for k
    using that sk by (simp add: groupItems_eq)
  have ex: "sumLoop L f (?grp k) = Fin (sum_list (map finiteValue (numbersOf L f (?grp k))))" for k
  proof (rule sumLoop_exact)
    show "\<forall>x \<in> set (numbersOf L f (?grp k)). \<exists>n::int. x = Fin (of_int n)"
      using assms(5) numbersOf_filter_subset [of L f _ data] by blast
    have "sum_list (map (\<lambda>x. \<bar>finiteValue x\<bar>) (numbersOf L f (?grp k)))
          \<le> sum_list (map (\<lambda>x. \<bar>finiteValue x\<bar>) (numbersOf L f data))"
      unfolding numbersOf_sum
      by (rule sum_list_filter_le) (auto split: option.splits)
    with assms(6) show "sum_list (map (\<lambda>x. \<bar>finiteValue x\<bar>) (numbersOf L f (?grp k))) \<le> 2 ^ 53"
      by linarith
  qed
  from assms(1) have "processGroups L s (groupItems L s data) korder = Inr out"
    by (simp add: Process_def)
  from processGroups_sum [OF this assms(3,4)] assms(2)
  have "map (\<lambda>g. g fname) out
          = map (\<lambda>k. Some (VFloat (sumLoop L f (the (groupItems L s data k))))) korder"
    by (simp add: iterates_def)
  also have "\<dots> = map (\<lambda>k. Some (VFloat (Fin (sum_list (map finiteValue (numbersOf L f (?grp k))))))) korder"
    by (rule map_cong) (simp_all add: grp ex)
  finally have m: "map (\<lambda>g. g fname) out
     = map (\<lambda>k. Some (VFloat (Fin (sum_list (map finiteValue (numbersOf L f (?grp k))))))) korder" .
  have "groupSumValues fname out
      = map (\<lambda>v. case v of Some (VFloat x) \<Rightarrow> finiteValue x | _ \<Rightarrow> 0) (map (\<lambda>g. g fname) out)"
    by (simp add: groupSumValues_def comp_def)
  also have "\<dots> = map (\<lambda>k. sum_list (map finiteValue (numbersOf L f (?grp k)))) korder"
    unfolding m by (simp add: comp_def finiteValue_def)
  also have "\<dots> = map (\<lambda>k. sum_list (map ?g (?grp k))) korder"
    by (simp add: numbersOf_sum)
  finally have "sum_list (groupSumValues fname out)
      = sum_list (map (\<lambda>k. sum_list (map ?g (?grp k))) korder)" by simp
  also have "\<dots> = sum_list (map ?g data)"
    by (rule sum_list_partition [OF dk]) (simp add: sk)
  also have "\<dots> = sum_list (map finiteValue (numbersOf L f data))"
    by (simp add: numbersOf_sum)
  finally show ?thesis .
qed


theorem group_sums_exact_witness:
  "sum_list (groupSumValues ''total'' small_groups) = 20
   \<and> sum_list (map finiteValue (numbersOf lib0 ''f'' small_items)) = 20"
proof -
  have i: "iterates [''A'', ''B''] (groupItems lib0 sum_stage small_items)"
    by (simp add: iterates_def groupItems_small_items)
  have d: "distinct (map fst (Fields sum_stage))"
    and m: "(''total'', \<lparr>Operation = ''sum'', AggField = ''f''\<rparr>) \<in> set (Fields sum_stage)"
    by (simp_all add: sum_stage_def)
  have "\<exists>n::int. (1::rat) = of_int n" "\<exists>n::int. (9::rat) = of_int n" "\<exists>n::int. (10::rat) = of_int n"
    by (metis of_int_1, metis of_int_numeral, metis of_int_numeral)
  then have n: "\<forall>x \<in> set (numbersOf lib0 ''f'' small_items). \<exists>n::int. x = Fin (of_int n)"
    by (simp add: numbersOf_small_items)
  have b: "sum_list (map (\<lambda>x. \<bar>finiteValue x\<bar>) (numbersOf lib0 ''f'' small_items)) \<le> 2 ^ 53"
    by (simp add: numbersOf_small_items finiteValue_def)
  from group_sums_exact [OF Process_small_items i d m n b] show ?thesis
    by (simp add: numbersOf_small_items finiteValue_def)
qed

section \<open>Insert\<close>

text \<open>
  C9. \<^verbatim>\<open>Insert(id, data)\<close> returns the already-exists error exactly when a document
  with that id is present, and then leaves the collection (documents and every index)
  as it was. Otherwise it returns no error, stores the document with the given id,
  data and the two clock readings, leaves every other document alone, and in each
  existing index on a field \<open>f\<close> with \<open>data f\<close> present sets the entry under the
  stringification of \<open>data f\<close> to \<open>id\<close>.
\<close>

theorem Insert_contract:
  "(fst (Insert L c did data t1 t2) = Some (AlreadyExists did)) = (did \<in> dom (Documents c))
   \<and> (fst (Insert L c did data t1 t2) \<noteq> None) = (did \<in> dom (Documents c))
   \<and> (did \<in> dom (Documents c) \<longrightarrow> snd (Insert L c did data t1 t2) = c)
   \<and> (did \<notin> dom (Documents c) \<longrightarrow>
        Documents (snd (Insert L c did data t1 t2)) =
          (Documents c)(did \<mapsto> \<lparr>ID = did, Data = data, CreatedAt = t1, UpdatedAt = t2\<rparr>)
        \<and> dom (Indexes (snd (Insert L c did data t1 t2))) = dom (Indexes c)
        \<and> (\<forall>f index v. Indexes c f = Some index \<and> data f = Some v \<longrightarrow>
              (\<exists>index'. Indexes (snd (Insert L c did data t1 t2)) f = Some index'
                 \<and> Values index' (sprintv L v) = Some did)))"
  by (auto simp: Insert_def updateIndexes_def Let_def dom_def split: option.splits)

theorem Insert_contract_witness:
  "fst (Insert lib0 (CreateIndex lib0 (NewCollection ''items'') ''qty'' []) ''a''
         [''qty'' \<mapsto> VInt 3] 1 2) = None
   \<and> (\<exists>index'. Indexes (snd (Insert lib0 (CreateIndex lib0 (NewCollection ''items'') ''qty'' [])
         ''a'' [''qty'' \<mapsto> VInt 3] 1 2)) ''qty'' = Some index'
         \<and> Values index' ''3'' = Some ''a'')
   \<and> fst (Insert lib0 (snd (Insert lib0 (NewCollection ''items'') ''a'' Map.empty 1 2)) ''a''
         [''qty'' \<mapsto> VInt 3] 3 4) = Some (AlreadyExists ''a'')"
  using Insert_contract [of lib0 "CreateIndex lib0 (NewCollection ''items'') ''qty'' []" "''a''"
          "[''qty'' \<mapsto> VInt 3]" 1 2]
        Insert_contract [of lib0 "snd (Insert lib0 (NewCollection ''items'') ''a'' Map.empty 1 2)"
          "''a''" "[''qty'' \<mapsto> VInt 3]" 3 4]
  by (simp add: Insert_def CreateIndex_def NewCollection_def rangeDocuments_def
        List.map_filter_simps updateIndexes_def formatInt_def Let_def)

section \<open>Find without an index\<close>

text \<open>
  C10. On a collection with no index on \<open>f\<close>, \<^verbatim>\<open>Find(f, v)\<close> returns the stored
  documents that have \<open>f\<close> and whose value of \<open>f\<close> stringifies to the very text that
  \<open>v\<close> stringifies to, each once per visit of the scan, and no others. Nothing is
  read as a number: the string \<^verbatim>\<open>1e1\<close> and the integer \<^verbatim>\<open>10\<close> are equal for
  \<^verbatim>\<open>compareValues\<close>, and \<^verbatim>\<open>Find\<close> with the integer does not return a document that
  holds the string.
\<close>

theorem Find_unindexed_textual:
  assumes "Indexes c f = None" and "iterates order (Documents c)"
  shows "Find L c f v order =
           filter (\<lambda>doc. \<exists>dv. Data doc f = Some dv \<and> sprintv L dv = sprintv L v)
             (rangeDocuments c order)
         \<and> set (Find L c f v order) =
           {doc \<in> ran (Documents c). \<exists>dv. Data doc f = Some dv \<and> sprintv L dv = sprintv L v}
         \<and> (\<forall>doc dv. Documents c (ID doc) = Some doc \<and> Data doc f = Some dv
               \<and> sprintv L dv \<noteq> sprintv L v \<longrightarrow> doc \<notin> set (Find L c f v order))
         \<and> compareValues L (VStr ''1e1'') (VInt 10) = 0
         \<and> sprintv L (VStr ''1e1'') \<noteq> sprintv L (VInt 10)"
proof -
  have eq: "(\<lambda>doc. case Data doc f of None \<Rightarrow> False | Some docValue \<Rightarrow> sprintv L docValue = sprintv L v)
          = (\<lambda>doc. \<exists>dv. Data doc f = Some dv \<and> sprintv L dv = sprintv L v)"
    by (auto split: option.splits)
  have F: "Find L c f v order =
           filter (\<lambda>doc. \<exists>dv. Data doc f = Some dv \<and> sprintv L dv = sprintv L v)
             (rangeDocuments c order)"
    using assms(1) by (simp add: Find_def fullScan_def eq)
  have C: "compareValues L (VStr ''1e1'') (VInt 10) = 0"
    by (simp add: compareValues_def Let_def formatInt_def ParseFloat_eval f64_less_def)
  have S: "sprintv L (VStr ''1e1'') \<noteq> sprintv L (VInt 10)"
    by (simp add: formatInt_def)
  show ?thesis
    unfolding F using rangeDocuments_iterates(1) [OF assms(2)] C S by auto
qed

theorem Find_unindexed_textual_witness:
  "compareValues lib0 (VStr ''1e1'') (VInt 10) = 0
   \<and> Find lib0 no_index ''n'' (VInt 10) [''a''] = []
   \<and> Find lib0 no_index ''n'' (VStr ''1e1'') [''a'']
       = [\<lparr>ID = ''a'', Data = [''n'' \<mapsto> VStr ''1e1''], CreatedAt = 1, UpdatedAt = 1\<rparr>]"
proof -
  have d: "Documents no_index = [''a'' \<mapsto> \<lparr>ID = ''a'', Data = [''n'' \<mapsto> VStr ''1e1''], CreatedAt = 1, UpdatedAt = 1\<rparr>]"
    and i: "Indexes no_index ''n'' = None"
    by (simp_all add: no_index_def Insert_def NewCollection_def updateIndexes_def Let_def)
  have it: "iterates [''a''] (Documents no_index)"
    by (simp add: iterates_def d)
  from Find_unindexed_textual [OF i it, of lib0 "VInt 10"]
       Find_unindexed_textual [OF i it, of lib0 "VStr ''1e1''"]
  show ?thesis
    by (simp add: rangeDocuments_def List.map_filter_simps d formatInt_def)
qed

end
